theory Spec2Isabelle
  imports Main "HOL-Library.Sublist"
begin

section \<open>JavaScript strings and the built-ins the media code calls\<close>

text \<open>
  A JavaScript string is modelled as a \<^typ>\<open>string\<close>, one \<^typ>\<open>char\<close> per code unit.
  Every character the source compares against (letters, digits, \<open>_ . - /\<close>) is ASCII.
\<close>

definition startsWith :: "string \<Rightarrow> string \<Rightarrow> bool" where
  \<comment> \<open>\<open>String.prototype.startsWith\<close> at position 0: the search string has to fit, and the
      code units at its positions have to be equal.\<close>
  "startsWith s search =
     (if length s < length search then False else take (length search) s = search)"

definition or_empty :: "string option \<Rightarrow> string" where
  \<comment> \<open>\<open>v || ''\<close> for a value that is a string or undefined.\<close>
  "or_empty v = (case v of None \<Rightarrow> [] | Some s \<Rightarrow> (if s = [] then [] else s))"

subsection \<open>Number to string\<close>

definition digit_char :: "nat \<Rightarrow> char" where
  "digit_char d = char_of (48 + d)"

function show_nat :: "nat \<Rightarrow> string" where
  \<comment> \<open>\<open>Number::toString\<close> of a non-negative integer below \<open>10^21\<close>: its decimal digits.\<close>
  "show_nat n = (if n < 10 then [digit_char n] else show_nat (n div 10) @ [digit_char (n mod 10)])"
  by pat_completeness auto
termination
  by (relation "measure id") auto

declare show_nat.simps [simp del]

subsection \<open>Regular expressions\<close>

text \<open>
  The three patterns of \<open>routes/media.js\<close> use literals, a character class, alternation,
  \<open>?\<close>, \<open>+\<close>, the assertions \<open>^\<close> and \<open>$\<close> (without the \<open>m\<close> flag: start and end of the
  input) and the \<open>i\<close> flag. The matcher below is the backtracking matcher of the language
  for this fragment: it returns, in the order in which the engine tries them, the
  remainders of the input that are left after a match of the pattern at the start.
\<close>

datatype regex =
    Chr char
  | Cls "(char \<times> char) list"
  | Cat regex regex
  | Alt regex regex
  | Opt regex
  | Plus regex
  | Bol
  | Eol
  | Empty

definition is_lower_ascii :: "char \<Rightarrow> bool" where
  "is_lower_ascii c = (97 \<le> (of_char c :: nat) \<and> (of_char c :: nat) \<le> 122)"

definition is_upper_ascii :: "char \<Rightarrow> bool" where
  "is_upper_ascii c = (65 \<le> (of_char c :: nat) \<and> (of_char c :: nat) \<le> 90)"

definition toUpperCase_char :: "char \<Rightarrow> char" where
  "toUpperCase_char c = (if is_lower_ascii c then char_of ((of_char c :: nat) - 32) else c)"

definition toLowerCase_char :: "char \<Rightarrow> char" where
  "toLowerCase_char c = (if is_upper_ascii c then char_of ((of_char c :: nat) + 32) else c)"

definition canonicalize :: "bool \<Rightarrow> char \<Rightarrow> char" where
  \<comment> \<open>The \<open>Canonicalize\<close> operation of the language: with the \<open>i\<close> flag a character is
      compared through its upper-case form. A character outside ASCII never becomes an
      ASCII one, so against the ASCII patterns of the source it is left as it is.\<close>
  "canonicalize ignoreCase c = (if ignoreCase then toUpperCase_char c else c)"

definition in_range :: "bool \<Rightarrow> char \<Rightarrow> char \<times> char \<Rightarrow> bool" where
  "in_range ignoreCase c r =
     list_ex (\<lambda>m. canonicalize ignoreCase (char_of m) = canonicalize ignoreCase c)
       [of_char (fst r) ..< Suc (of_char (snd r))]"

definition in_class :: "bool \<Rightarrow> (char \<times> char) list \<Rightarrow> char \<Rightarrow> bool" where
  "in_class ignoreCase rs c = list_ex (in_range ignoreCase c) rs"

function rmatch :: "bool \<Rightarrow> nat \<Rightarrow> regex \<Rightarrow> string \<Rightarrow> string list" where
  "rmatch ic n (Chr p) s =
     (case s of [] \<Rightarrow> [] | c # cs \<Rightarrow> (if canonicalize ic c = canonicalize ic p then [cs] else []))"
| "rmatch ic n (Cls rs) s =
     (case s of [] \<Rightarrow> [] | c # cs \<Rightarrow> (if in_class ic rs c then [cs] else []))"
| "rmatch ic n (Cat a b) s = concat (map (rmatch ic n b) (rmatch ic n a s))"
| "rmatch ic n (Alt a b) s = rmatch ic n a s @ rmatch ic n b s"
| "rmatch ic n (Opt a) s = rmatch ic n a s @ [s]"
| "rmatch ic n (Plus a) s =
     concat (map (\<lambda>r. (if length r < length s then rmatch ic n (Plus a) r else []) @ [r])
       (rmatch ic n a s))"
| "rmatch ic n Bol s = (if length s = n then [s] else [])"
| "rmatch ic n Eol s = (if s = [] then [s] else [])"
| "rmatch ic n Empty s = [s]"
  by pat_completeness auto
termination
  by (relation "measures [\<lambda>(ic, n, r, s). size r, \<lambda>(ic, n, r, s). length s]") auto

declare rmatch.simps [simp del]

definition matches_at :: "bool \<Rightarrow> regex \<Rightarrow> string \<Rightarrow> nat \<Rightarrow> bool" where
  \<comment> \<open>whether the pattern matches the input starting at index \<open>i\<close>\<close>
  "matches_at ic r s i = (rmatch ic (length s) r (drop i s) \<noteq> [])"

definition exec_index :: "bool \<Rightarrow> regex \<Rightarrow> string \<Rightarrow> nat option" where
  \<comment> \<open>the search of \<open>RegExp.prototype.exec\<close> from \<open>lastIndex = 0\<close>: the first start index
      with a match\<close>
  "exec_index ic r s = List.find (matches_at ic r s) [0 ..< Suc (length s)]"

definition test :: "bool \<Rightarrow> regex \<Rightarrow> string \<Rightarrow> bool" where
  "test ic r s = (exec_index ic r s \<noteq> None)"

definition replace :: "bool \<Rightarrow> regex \<Rightarrow> string \<Rightarrow> string \<Rightarrow> string" where
  \<comment> \<open>\<open>String.prototype.replace\<close> with a pattern without the \<open>g\<close> flag: the first match,
      at the first start index and with the remainder the engine finds first, is replaced.\<close>
  "replace ic r s repl =
     (case exec_index ic r s of
        None \<Rightarrow> s
      | Some i \<Rightarrow> take i s @ repl @ hd (rmatch ic (length s) r (drop i s)))"

fun lit :: "string \<Rightarrow> regex" where
  \<comment> \<open>a run of literal characters\<close>
  "lit [] = Empty"
| "lit (c # cs) = Cat (Chr c) (lit cs)"

definition str_includes :: "string \<Rightarrow> string \<Rightarrow> bool" where
  \<comment> \<open>\<open>String.prototype.includes\<close>: the search string occurs at some index\<close>
  "str_includes s search = list_ex (\<lambda>t. startsWith t search) (suffixes s)"

definition slice :: "string \<Rightarrow> int \<Rightarrow> int \<Rightarrow> string" where
  \<comment> \<open>\<open>String.prototype.slice(start, end)\<close>, negative indices counted from the end\<close>
  "slice s a b =
     (let len = int (length s);
          lo = (if a < 0 then max (len + a) 0 else min a len);
          hi = (if b < 0 then max (len + b) 0 else min b len)
      in take (nat (hi - lo)) (drop (nat lo) s))"

subsection \<open>path.extname\<close>

text \<open>
  \<open>path.extname\<close> of the POSIX \<open>path\<close> module (the deployment target of the upload
  directory is a Linux host): one backward scan over the path. The state holds the
  variables of that scan; \<open>endPos\<close> is the variable \<open>end\<close>.
\<close>

record extname_state =
  startDot :: int
  startPart :: int
  endPos :: int
  matchedSlash :: bool
  preDotState :: int

definition extname_init :: extname_state where
  "extname_init =
     \<lparr>startDot = -1, startPart = 0, endPos = -1, matchedSlash = True, preDotState = 0\<rparr>"

fun extname_loop :: "string \<Rightarrow> nat \<Rightarrow> extname_state \<Rightarrow> extname_state" where
  \<comment> \<open>\<open>for (i = path.length - 1; i >= 0; --i)\<close>; the second argument is \<open>i + 1\<close>\<close>
  "extname_loop path 0 st = st"
| "extname_loop path (Suc i) st =
     (if path ! i = CHR ''/'' then
        (if \<not> matchedSlash st then st\<lparr>startPart := int i + 1\<rparr>
         else extname_loop path i st)
      else
        (let st1 = (if endPos st = -1 then st\<lparr>matchedSlash := False, endPos := int i + 1\<rparr>
                    else st);
             st2 = (if path ! i = CHR ''.'' then
                      (if startDot st1 = -1 then st1\<lparr>startDot := int i\<rparr>
                       else if preDotState st1 \<noteq> 1 then st1\<lparr>preDotState := 1\<rparr>
                       else st1)
                    else if startDot st1 \<noteq> -1 then st1\<lparr>preDotState := -1\<rparr>
                    else st1)
         in extname_loop path i st2))"

definition extname :: "string \<Rightarrow> string" where
  "extname path =
     (let st = extname_loop path (length path) extname_init in
      if startDot st = -1 \<or> endPos st = -1 \<or> preDotState st = 0 \<or>
         (preDotState st = 1 \<and> startDot st = endPos st - 1 \<and> startDot st = startPart st + 1)
      then []
      else slice path (startDot st) (endPos st))"

section \<open>middleware/upload.js\<close>

record upload_error =
  is_multer :: bool
  code :: "string option"
  message :: string

record upload_file =
  fieldname :: string
  originalname :: string
  mimetype :: string
  size :: nat

record stored_file = upload_file +
  file_filename :: string

definition storage_filename :: "upload_file \<Rightarrow> nat \<Rightarrow> nat \<Rightarrow> string" where
  \<comment> \<open>\<open>storage.filename\<close>; \<open>now\<close> is \<open>Date.now()\<close> and \<open>rnd\<close> is
      \<open>Math.round(Math.random() * 1E9)\<close>, an integer from 0 to \<open>10^9\<close>\<close>
  "storage_filename f now rnd =
     (let uniqueSuffix = show_nat now @ ''-'' @ show_nat rnd
      in fieldname f @ ''-'' @ uniqueSuffix @ extname (originalname f))"

definition fileSize_limit :: nat where
  "fileSize_limit = 5 * 1024 * 1024"

definition not_an_image :: upload_error where
  \<comment> \<open>\<open>new Error('Not an image! Please upload an image.')\<close>\<close>
  "not_an_image =
     \<lparr>is_multer = False, code = None, message = ''Not an image! Please upload an image.''\<rparr>"

definition fileFilter :: "upload_file \<Rightarrow> upload_error + bool" where
  \<comment> \<open>the two arguments of the callback: \<open>cb(null, true)\<close> or \<open>cb(err, false)\<close>\<close>
  "fileFilter f =
     (if startsWith (mimetype f) ''image/'' then Inr True else Inl not_an_image)"

datatype body =
    Error_body string
  | Success_data "(string \<times> string) list"
  | Success_message string

record response =
  status :: nat
  body :: body

datatype outcome = Respond response | Next_err upload_error

definition handleUploadError :: "upload_error \<Rightarrow> outcome" where
  "handleUploadError err =
     (if is_multer err \<and> code err = Some ''LIMIT_FILE_SIZE'' then
        Respond \<lparr>status = 400, body = Error_body ''File too large. Maximum size is 5MB.''\<rparr>
      else if is_multer err \<and> code err = Some ''LIMIT_FILE_COUNT'' then
        Respond \<lparr>status = 400, body = Error_body ''Too many files. Maximum is 5 files.''\<rparr>
      else if message err = ''Not an image! Please upload an image.'' then
        Respond \<lparr>status = 400, body = Error_body (message err)\<rparr>
      else Next_err err)"

section \<open>server.js\<close>

text \<open>
  \<open>server.js\<close> holds three copies of the application. The error-handling middleware of
  the first and of the third copy (lines 121-128 and 472-479) has a branch for messages
  that contain \<open>CORS\<close>; that of the second copy (lines 284-291) answers 500 to every
  error.
\<close>

definition app_error_handler :: "upload_error \<Rightarrow> response" where
  \<comment> \<open>the error-handling middleware of the first and of the third copy\<close>
  "app_error_handler err =
     (if str_includes (message err) ''CORS'' then
        \<lparr>status = 403, body = Error_body (message err)\<rparr>
      else \<lparr>status = 500, body = Error_body ''Something went wrong!''\<rparr>)"

definition app_error_handler_second :: "upload_error \<Rightarrow> response" where
  \<comment> \<open>the error-handling middleware of the second copy\<close>
  "app_error_handler_second err = \<lparr>status = 500, body = Error_body ''Something went wrong!''\<rparr>"

section \<open>routes/media.js\<close>

text \<open>
  The regular files of the uploads directory are modelled by their names, in the order in
  which \<open>readdir\<close> enumerates them; the names of its subdirectories are a list of their
  own. An entry of the response data is the pair of \<open>filename\<close> and \<open>url\<close>.
\<close>

type_synonym directory = "string list"

datatype fs_error = ENOENT | EISDIR | ENAMETOOLONG | EACCES

definition name_max :: nat where
  \<comment> \<open>the longest file name of the host's file system, in bytes\<close>
  "name_max = 255"

definition image_pattern :: regex where
  \<comment> \<open>\<open>/\.(png|jpe?g|gif|webp|svg)$/i\<close>\<close>
  "image_pattern =
     Cat (Chr CHR ''.'')
       (Cat (Alt (lit ''png'')
            (Alt (Cat (lit ''jp'') (Cat (Opt (Chr CHR ''e'')) (Chr CHR ''g'')))
            (Alt (lit ''gif'')
            (Alt (lit ''webp'') (lit ''svg'')))))
          Eol)"

definition filename_pattern :: regex where
  \<comment> \<open>\<open>/^[A-Za-z0-9_.-]+$/\<close>\<close>
  "filename_pattern =
     Cat Bol
       (Cat (Plus (Cls [(CHR ''A'', CHR ''Z''), (CHR ''a'', CHR ''z''), (CHR ''0'', CHR ''9''),
                        (CHR ''_'', CHR ''_''), (CHR ''.'', CHR ''.''), (CHR ''-'', CHR ''-'')]))
          Eol)"

definition api_suffix_pattern :: regex where
  \<comment> \<open>\<open>/\/api\/?$/\<close>\<close>
  "api_suffix_pattern = Cat (lit ''/api'') (Cat (Opt (Chr CHR ''/'')) Eol)"

definition backendUrl :: "string option \<Rightarrow> string" where
  \<comment> \<open>\<open>(process.env.BACKEND_URL || '').replace(/\/api\/?$/, '')\<close>\<close>
  "backendUrl env = replace False api_suffix_pattern (or_empty env) []"

definition media_entry :: "string option \<Rightarrow> string \<Rightarrow> string \<times> string" where
  \<comment> \<open>\<open>{ filename, url: `${backendUrl}/uploads/${filename}` }\<close>\<close>
  "media_entry env name = (name, backendUrl env @ ''/uploads/'' @ name)"

definition list_media :: "string option \<Rightarrow> fs_error + string list \<Rightarrow> response" where
  \<comment> \<open>\<open>router.get('/')\<close> after \<open>protect\<close> and \<open>authorize('admin')\<close>; the second argument is
      what \<open>readdir\<close> gives\<close>
  "list_media env readdir_result =
     (case readdir_result of
        Inl err \<Rightarrow> \<lparr>status = 500, body = Error_body ''Failed to list media''\<rparr>
      | Inr files \<Rightarrow>
          \<lparr>status = 200,
           body = Success_data (map (media_entry env) (filter (test True image_pattern) files))\<rparr>)"

definition upload_media :: "string option \<Rightarrow> stored_file list option \<Rightarrow> response" where
  \<comment> \<open>the last handler of \<open>router.post('/')\<close>; the second argument is \<open>req.files\<close>\<close>
  "upload_media env req_files =
     (let files = map (\<lambda>f. media_entry env (file_filename f))
                    (case req_files of None \<Rightarrow> [] | Some fs \<Rightarrow> fs)
      in \<lparr>status = 201, body = Success_data files\<rparr>)"

definition post_media ::
  "string option \<Rightarrow> upload_error + stored_file list option \<Rightarrow> response" where
  \<comment> \<open>\<open>router.post('/')\<close> after \<open>protect\<close> and \<open>authorize('admin')\<close>: the outcome of
      \<open>uploadMultiple\<close> is an error passed to \<open>next\<close> or the parsed \<open>req.files\<close>; an error
      goes to \<open>handleUploadError\<close> and, if passed on, to the error handler of the
      application, here that of the first copy of \<open>server.js\<close>\<close>
  "post_media env upload_result =
     (case upload_result of
        Inl err \<Rightarrow>
          (case handleUploadError err of
             Respond r \<Rightarrow> r
           | Next_err e \<Rightarrow> app_error_handler e)
      | Inr req_files \<Rightarrow> upload_media env req_files)"

definition unlink :: "string list \<Rightarrow> directory \<Rightarrow> string \<Rightarrow> fs_error + directory" where
  \<comment> \<open>\<open>fs.promises.unlink(path.join(UPLOADS_DIR, name))\<close> for a name without \<open>/\<close>, in an
      uploads directory that the process may search and write. A name longer than the
      file system allows is refused. \<open>.\<close> and \<open>..\<close> join to the uploads directory and to
      its parent; these and the subdirectories are directories and cannot be unlinked.\<close>
  "unlink subdirs dir name =
     (if name_max < length name then Inl ENAMETOOLONG
      else if name = ''.'' \<or> name = ''..'' \<or> name \<in> set subdirs then Inl EISDIR
      else if name \<in> set dir then Inr (filter (\<lambda>n. n \<noteq> name) dir)
      else Inl ENOENT)"

record delete_outcome =
  reply :: response
  unlink_calls :: "string list"
  dir_after :: directory

definition delete_media :: "string list \<Rightarrow> directory \<Rightarrow> string \<Rightarrow> delete_outcome" where
  \<comment> \<open>\<open>router.delete('/:filename')\<close> after \<open>protect\<close> and \<open>authorize('admin')\<close>;
      \<open>unlink_calls\<close> lists the names with which \<open>unlink\<close> was called\<close>
  "delete_media subdirs dir name =
     (if \<not> test False filename_pattern name then
        \<lparr>reply = \<lparr>status = 400, body = Error_body ''Invalid filename''\<rparr>,
         unlink_calls = [], dir_after = dir\<rparr>
      else
        (case unlink subdirs dir name of
           Inr dir' \<Rightarrow>
             \<lparr>reply = \<lparr>status = 200, body = Success_message ''File deleted''\<rparr>,
              unlink_calls = [name], dir_after = dir'\<rparr>
         | Inl err \<Rightarrow>
             (if err = ENOENT then
                \<lparr>reply = \<lparr>status = 404, body = Error_body ''File not found''\<rparr>,
                 unlink_calls = [name], dir_after = dir\<rparr>
              else
                \<lparr>reply = \<lparr>status = 500, body = Error_body ''Failed to delete media''\<rparr>,
                 unlink_calls = [name], dir_after = dir\<rparr>)))"

section \<open>The upload pipeline as the repository configures it\<close>

text \<open>
  \<open>uploadMultiple\<close> is \<open>upload.array('images', 5)\<close> of the multer library with the disk
  storage, the size limit and the filter above. The multipart parsing, the enforcement of
  the size limit and what the library does with a request it rejects are inside the
  library and are not modelled. What is modelled is a request that the configuration
  accepts: each part is stored in the uploads directory under the name
  \<open>storage.filename\<close> gives it, and \<open>req.files\<close> lists the stored parts in order. A part
  comes with the values of \<open>Date.now()\<close> and of the rounded random number drawn for it.

  Of the library's own checks one is modelled, the count of the files of a field. The
  library wraps the configured filter: for each file part, in the order of the request,
  it first looks at the number of files still allowed for the field of the part, which
  is five for \<open>images\<close> and none for any other field, and refuses the part with the
  error \<open>LIMIT_UNEXPECTED_FILE\<close> when none is left; otherwise it counts the part and
  asks the configured filter. The error \<open>LIMIT_FILE_COUNT\<close> belongs to the option
  \<open>limits.files\<close>, which \<open>upload.js\<close> does not set.
\<close>

definition limit_unexpected_file :: upload_error where
  \<comment> \<open>\<open>new MulterError('LIMIT_UNEXPECTED_FILE', file.fieldname)\<close>\<close>
  "limit_unexpected_file =
     \<lparr>is_multer = True, code = Some ''LIMIT_UNEXPECTED_FILE'', message = ''Unexpected field''\<rparr>"

fun uploadMultiple_filter :: "nat \<Rightarrow> upload_file list \<Rightarrow> upload_error option" where
  \<comment> \<open>the wrapped filter over the file parts of a request; the first argument is the
      number of files left for the field \<open>images\<close>; the result is the error with which the
      request is refused, if it is\<close>
  "uploadMultiple_filter filesLeft [] = None"
| "uploadMultiple_filter filesLeft (f # fs) =
     (if fieldname f \<noteq> ''images'' \<or> filesLeft = 0 then Some limit_unexpected_file
      else (case fileFilter f of
              Inl err \<Rightarrow> Some err
            | Inr accepted \<Rightarrow> uploadMultiple_filter (filesLeft - 1) fs))"

definition accepted_part :: "upload_file \<Rightarrow> bool" where
  "accepted_part f \<longleftrightarrow>
     fieldname f = ''images'' \<and> fileFilter f = Inr True \<and> size f \<le> fileSize_limit"

definition accepted_request :: "(upload_file \<times> nat \<times> nat) list \<Rightarrow> bool" where
  "accepted_request parts \<longleftrightarrow> length parts \<le> 5 \<and> list_all (\<lambda>p. accepted_part (fst p)) parts"

definition write_file :: "directory \<Rightarrow> string \<Rightarrow> directory" where
  \<comment> \<open>writing to an existing name replaces the content of that file\<close>
  "write_file dir name = (if name \<in> set dir then dir else dir @ [name])"

fun store_files :: "directory \<Rightarrow> (upload_file \<times> nat \<times> nat) list \<Rightarrow> stored_file list \<times> directory" where
  "store_files dir [] = ([], dir)"
| "store_files dir ((f, now, rnd) # ps) =
     (let name = storage_filename f now rnd;
          (stored, dir') = store_files (write_file dir name) ps
      in (\<lparr>fieldname = fieldname f, originalname = originalname f, mimetype = mimetype f,
           size = size f, file_filename = name\<rparr> # stored, dir'))"

definition upload_request ::
  "string option \<Rightarrow> directory \<Rightarrow> (upload_file \<times> nat \<times> nat) list \<Rightarrow> response \<times> directory" where
  "upload_request env dir parts =
     (let (stored, dir') = store_files dir parts
      in (post_media env (Inr (Some stored)), dir'))"

fun upload_requests ::
  "string option \<Rightarrow> directory \<Rightarrow> (upload_file \<times> nat \<times> nat) list list \<Rightarrow>
     response list \<times> directory" where
  "upload_requests env dir [] = ([], dir)"
| "upload_requests env dir (parts # rest) =
     (let (r, dir1) = upload_request env dir parts;
          (rs, dir2) = upload_requests env dir1 rest
      in (r # rs, dir2))"

definition response_filenames :: "response \<Rightarrow> string list" where
  \<comment> \<open>the \<open>filename\<close> fields of the \<open>data\<close> array of a response\<close>
  "response_filenames r = (case body r of Success_data entries \<Rightarrow> map fst entries | _ \<Rightarrow> [])"

section \<open>What the specification says, in its own words\<close>

definition strip_api_suffix :: "string \<Rightarrow> string" where
  \<comment> \<open>the base URL with a trailing \<open>/api\<close> or \<open>/api/\<close> removed\<close>
  "strip_api_suffix s =
     (if suffix ''/api/'' s then take (length s - 5) s
      else if suffix ''/api'' s then take (length s - 4) s
      else s)"

definition is_digit_ascii :: "char \<Rightarrow> bool" where
  "is_digit_ascii c = (48 \<le> (of_char c :: nat) \<and> (of_char c :: nat) \<le> 57)"

definition allowed_char :: "char \<Rightarrow> bool" where
  "allowed_char c =
     (is_upper_ascii c \<or> is_lower_ascii c \<or> is_digit_ascii c \<or>
      c = CHR ''_'' \<or> c = CHR ''.'' \<or> c = CHR ''-'')"

definition image_extensions :: "string list" where
  "image_extensions = [''png'', ''jpg'', ''jpeg'', ''gif'', ''webp'', ''svg'']"

definition has_image_extension :: "string \<Rightarrow> bool" where
  "has_image_extension name =
     list_ex (\<lambda>e. suffix (''.'' @ e) (map toLowerCase_char name)) image_extensions"

definition scan_inv :: "string \<Rightarrow> nat \<Rightarrow> extname_state \<Rightarrow> bool" where
  "scan_inv path k st \<longleftrightarrow>
     k \<le> length path \<and>
     (endPos st = -1 \<longrightarrow> startDot st = -1 \<and> matchedSlash st) \<and>
     (endPos st \<noteq> -1 \<longrightarrow> \<not> matchedSlash st \<and> int k < endPos st \<and> endPos st \<le> int (length path)) \<and>
     (startDot st \<noteq> -1 \<longrightarrow>
        int k \<le> startDot st \<and> startDot st < endPos st \<and> path ! nat (startDot st) = CHR ''.'' \<and>
        (\<forall>j. nat (startDot st) < j \<and> j < nat (endPos st) \<longrightarrow>
               path ! j \<noteq> CHR ''.'' \<and> path ! j \<noteq> CHR ''/'')) \<and>
     (startDot st = -1 \<and> endPos st \<noteq> -1 \<longrightarrow>
        (\<forall>j. k \<le> j \<and> j < nat (endPos st) \<longrightarrow> path ! j \<noteq> CHR ''.'' \<and> path ! j \<noteq> CHR ''/''))"

definition scan_result :: "string \<Rightarrow> extname_state \<Rightarrow> bool" where
  "scan_result path st \<longleftrightarrow>
     (startDot st \<noteq> -1 \<longrightarrow>
        0 \<le> startDot st \<and> startDot st < endPos st \<and> endPos st \<le> int (length path) \<and>
        path ! nat (startDot st) = CHR ''.'' \<and>
        (\<forall>j. nat (startDot st) < j \<and> j < nat (endPos st) \<longrightarrow>
               path ! j \<noteq> CHR ''.'' \<and> path ! j \<noteq> CHR ''/''))"

definition extension_shape :: "string \<Rightarrow> bool" where
  "extension_shape e \<longleftrightarrow>
     e = [] \<or> (hd e = CHR ''.'' \<and> CHR ''.'' \<notin> set (tl e) \<and> CHR ''/'' \<notin> set (tl e))"

definition stored_names :: "(upload_file \<times> nat \<times> nat) list \<Rightarrow> string list" where
  "stored_names parts = map (\<lambda>(f, now, rnd). storage_filename f now rnd) parts"

definition original_extension_allowlisted :: "upload_file \<Rightarrow> bool" where
  "original_extension_allowlisted f \<longleftrightarrow>
     map toLowerCase_char (extname (originalname f)) \<in> set (map ((@) ''.'') image_extensions)"

section \<open>Requests and errors used as examples\<close>

definition traversal_upload :: upload_file where
  "traversal_upload =
     \<lparr>fieldname = ''images'', originalname = ''../../etc/..a.PNG'', mimetype = ''image/png'', size = 4\<rparr>"

definition upper_case_upload :: upload_file where
  "upper_case_upload =
     \<lparr>fieldname = ''images'', originalname = ''A.PNG'', mimetype = ''image/png'', size = 4\<rparr>"

definition bmp_upload :: upload_file where
  "bmp_upload =
     \<lparr>fieldname = ''images'', originalname = ''photo.bmp'', mimetype = ''image/bmp'', size = 4\<rparr>"

definition png_upload :: upload_file where
  "png_upload =
     \<lparr>fieldname = ''images'', originalname = ''Logo.PNG'', mimetype = ''image/png'', size = 4\<rparr>"

definition jpeg_upload :: upload_file where
  "jpeg_upload =
     \<lparr>fieldname = ''images'', originalname = ''cat.jpeg'', mimetype = ''image/jpeg'', size = 9\<rparr>"

definition six_images :: "upload_file list" where
  \<comment> \<open>six image parts in the field \<open>images\<close>, each far below the size limit\<close>
  "six_images = [png_upload, jpeg_upload, png_upload, jpeg_upload, png_upload, jpeg_upload]"

section \<open>Facts about the matcher and about \<open>path.extname\<close>\<close>

lemma in_range_case_sensitive:
  "in_range False c r \<longleftrightarrow>
     (of_char (fst r) :: nat) \<le> of_char c \<and> (of_char c :: nat) \<le> of_char (snd r)"
proof
  assume "in_range False c r"
  then obtain m :: nat where m: "of_char (fst r) \<le> m" "m \<le> of_char (snd r)" "char_of m = c"
    by (auto simp: in_range_def canonicalize_def list_ex_iff)
  have "m < 256" by (rule le_less_trans [OF m(2) nat_of_char_less_256])
  hence "of_char c = m" using m(3) by (auto simp: of_char_of)
  thus "(of_char (fst r) :: nat) \<le> of_char c \<and> (of_char c :: nat) \<le> of_char (snd r)"
    using m by simp
next
  assume "(of_char (fst r) :: nat) \<le> of_char c \<and> (of_char c :: nat) \<le> of_char (snd r)"
  then have a: "(of_char c :: nat) \<in> set [of_char (fst r) ..< Suc (of_char (snd r))]"
    by (metis atLeastLessThan_iff less_Suc_eq_le set_upt)
  show "in_range False c r"
    unfolding in_range_def list_ex_iff canonicalize_def if_False
  proof (rule bexI)
    show "char_of (of_char c :: nat) = c" by simp
    show "(of_char c :: nat) \<in> set [of_char (fst r) ..< Suc (of_char (snd r))]" by (rule a)
  qed
qed

lemma in_class_filename:
  "in_class False [(CHR ''A'', CHR ''Z''), (CHR ''a'', CHR ''z''), (CHR ''0'', CHR ''9''),
                   (CHR ''_'', CHR ''_''), (CHR ''.'', CHR ''.''), (CHR ''-'', CHR ''-'')] c
   \<longleftrightarrow> allowed_char c"
proof -
  have e: "\<And>d. ((of_char d :: nat) \<le> of_char c \<and> (of_char c :: nat) \<le> of_char d) \<longleftrightarrow> c = d"
    by (auto simp: of_char_eq_iff dest: antisym)
  show ?thesis
    unfolding in_class_def list_ex_Cons_iff list_ex_Nil_iff in_range_case_sensitive fst_conv snd_conv e
    by (simp add: allowed_char_def is_upper_ascii_def is_lower_ascii_def is_digit_ascii_def)
qed

lemmas rmatch_simps = rmatch.simps(1-5) rmatch.simps(7-9)

lemma rmatch_Plus_Cls_Nil: "rmatch ic n (Plus (Cls rs)) [] = []"
  by (subst rmatch.simps(6)) (simp add: rmatch_simps)

lemma rmatch_Plus_Cls_Cons:
  "rmatch ic n (Plus (Cls rs)) (c # cs) =
     (if in_class ic rs c then rmatch ic n (Plus (Cls rs)) cs @ [cs] else [])"
  by (subst rmatch.simps(6)) (simp add: rmatch_simps)

lemma rmatch_Plus_Cls:
  "r \<in> set (rmatch ic n (Plus (Cls rs)) s) \<longleftrightarrow>
     (\<exists>p. s = p @ r \<and> p \<noteq> [] \<and> list_all (in_class ic rs) p)"
proof (induction s)
  case Nil
  show ?case by (simp add: rmatch_Plus_Cls_Nil)
next
  case (Cons c cs)
  show ?case
  proof (cases "in_class ic rs c")
    case False
    then show ?thesis
      by (auto simp: rmatch_Plus_Cls_Cons Cons_eq_append_conv)
  next
    case True
    show ?thesis
    proof
      assume "r \<in> set (rmatch ic n (Plus (Cls rs)) (c # cs))"
      then consider "r \<in> set (rmatch ic n (Plus (Cls rs)) cs)" | "r = cs"
        using True by (auto simp: rmatch_Plus_Cls_Cons)
      then show "\<exists>p. c # cs = p @ r \<and> p \<noteq> [] \<and> list_all (in_class ic rs) p"
      proof cases
        case 1
        then obtain p where "cs = p @ r" "list_all (in_class ic rs) p"
          using Cons.IH by blast
        then have "c # cs = (c # p) @ r \<and> c # p \<noteq> [] \<and> list_all (in_class ic rs) (c # p)"
          using True by simp
        then show ?thesis by blast
      next
        case 2
        then have "c # cs = [c] @ r \<and> [c] \<noteq> [] \<and> list_all (in_class ic rs) [c]"
          using True by simp
        then show ?thesis by blast
      qed
    next
      assume "\<exists>p. c # cs = p @ r \<and> p \<noteq> [] \<and> list_all (in_class ic rs) p"
      then obtain p where p: "c # cs = p @ r" "p \<noteq> []" "list_all (in_class ic rs) p"
        by blast
      then obtain q where q: "p = c # q" "cs = q @ r"
        by (cases p) auto
      show "r \<in> set (rmatch ic n (Plus (Cls rs)) (c # cs))"
      proof (cases "q = []")
        case True
        then show ?thesis using q \<open>in_class ic rs c\<close> by (simp add: rmatch_Plus_Cls_Cons)
      next
        case False
        then have "r \<in> set (rmatch ic n (Plus (Cls rs)) cs)"
          using Cons.IH q p(3) by auto
        then show ?thesis using \<open>in_class ic rs c\<close> by (simp add: rmatch_Plus_Cls_Cons)
      qed
    qed
  qed
qed

lemma set_rmatch_Cat:
  "set (rmatch ic n (Cat a b) s) = (\<Union>r \<in> set (rmatch ic n a s). set (rmatch ic n b r))"
  by (simp add: rmatch_simps)

lemma rmatch_nonempty_iff: "rmatch ic n r s \<noteq> [] \<longleftrightarrow> (\<exists>t. t \<in> set (rmatch ic n r s))"
  by (cases "rmatch ic n r s") auto

lemma set_rmatch_Eol: "t \<in> set (rmatch ic n Eol s) \<longleftrightarrow> s = [] \<and> t = []"
  by (auto simp: rmatch_simps)

lemma set_rmatch_Bol: "t \<in> set (rmatch ic n Bol s) \<longleftrightarrow> length s = n \<and> t = s"
  by (auto simp: rmatch_simps)

lemma matches_at_filename_pattern:
  "matches_at False filename_pattern s i \<longleftrightarrow> (i = 0 \<and> s \<noteq> [] \<and> list_all allowed_char s)"
proof -
  have "matches_at False filename_pattern s i \<longleftrightarrow>
          length (drop i s) = length s \<and>
          [] \<in> set (rmatch False (length s)
             (Plus (Cls [(CHR ''A'', CHR ''Z''), (CHR ''a'', CHR ''z''), (CHR ''0'', CHR ''9''),
                        (CHR ''_'', CHR ''_''), (CHR ''.'', CHR ''.''), (CHR ''-'', CHR ''-'')]))
             (drop i s))"
    unfolding matches_at_def filename_pattern_def rmatch_nonempty_iff set_rmatch_Cat
    by (auto simp: set_rmatch_Eol set_rmatch_Bol)
  also have "\<dots> \<longleftrightarrow> length (drop i s) = length s \<and> drop i s \<noteq> [] \<and> list_all allowed_char (drop i s)"
    unfolding rmatch_Plus_Cls by (auto simp: list_all_iff in_class_filename)
  also have "\<dots> \<longleftrightarrow> (i = 0 \<and> s \<noteq> [] \<and> list_all allowed_char s)"
    by (cases "i = 0") auto
  finally show ?thesis .
qed

lemma test_filename_pattern:
  "test False filename_pattern s \<longleftrightarrow> s \<noteq> [] \<and> list_all allowed_char s"
proof -
  have "test False filename_pattern s \<longleftrightarrow>
          (\<exists>i \<in> set [0 ..< Suc (length s)]. matches_at False filename_pattern s i)"
    unfolding test_def exec_index_def by (auto simp: find_None_iff)
  also have "\<dots> \<longleftrightarrow> s \<noteq> [] \<and> list_all allowed_char s"
    unfolding matches_at_filename_pattern by auto
  finally show ?thesis .
qed

lemma of_char_toUpperCase_char:
  "(of_char (toUpperCase_char c) :: nat) =
     (if 97 \<le> (of_char c :: nat) \<and> (of_char c :: nat) \<le> 122 then of_char c - 32 else of_char c)"
proof -
  have "(of_char c :: nat) - 32 < 256"
    using nat_of_char_less_256 [of c] by arith
  then show ?thesis
    by (simp add: toUpperCase_char_def is_lower_ascii_def)
qed

lemma of_char_toLowerCase_char:
  "(of_char (toLowerCase_char c) :: nat) =
     (if 65 \<le> (of_char c :: nat) \<and> (of_char c :: nat) \<le> 90 then of_char c + 32 else of_char c)"
  by (simp add: toLowerCase_char_def is_upper_ascii_def)

lemma same_letter_iff:
  "toUpperCase_char c = toUpperCase_char d \<longleftrightarrow> toLowerCase_char c = toLowerCase_char d"
proof -
  have "toUpperCase_char c = toUpperCase_char d \<longleftrightarrow>
          (of_char (toUpperCase_char c) :: nat) = of_char (toUpperCase_char d)"
    by simp
  also have "\<dots> \<longleftrightarrow> (of_char (toLowerCase_char c) :: nat) = of_char (toLowerCase_char d)"
    unfolding of_char_toUpperCase_char of_char_toLowerCase_char by presburger
  also have "\<dots> \<longleftrightarrow> toLowerCase_char c = toLowerCase_char d"
    by simp
  finally show ?thesis .
qed

lemma canonicalize_ignoreCase:
  "canonicalize True c = canonicalize True p \<longleftrightarrow> toLowerCase_char c = toLowerCase_char p"
  by (simp add: canonicalize_def same_letter_iff)

lemma set_rmatch_Chr:
  "t \<in> set (rmatch ic n (Chr p) s) \<longleftrightarrow> (\<exists>c. s = c # t \<and> canonicalize ic c = canonicalize ic p)"
  by (cases s) (auto simp: rmatch_simps)

lemma set_rmatch_Alt:
  "t \<in> set (rmatch ic n (Alt a b) s) \<longleftrightarrow> t \<in> set (rmatch ic n a s) \<or> t \<in> set (rmatch ic n b s)"
  by (simp add: rmatch_simps)

lemma set_rmatch_Opt:
  "t \<in> set (rmatch ic n (Opt a) s) \<longleftrightarrow> t \<in> set (rmatch ic n a s) \<or> t = s"
  by (auto simp: rmatch_simps)

lemma set_rmatch_Empty: "t \<in> set (rmatch ic n Empty s) \<longleftrightarrow> t = s"
  by (auto simp: rmatch_simps)

lemma mem_rmatch_Cat:
  "t \<in> set (rmatch ic n (Cat a b) s) \<longleftrightarrow>
     (\<exists>r. r \<in> set (rmatch ic n a s) \<and> t \<in> set (rmatch ic n b r))"
  by (auto simp: set_rmatch_Cat)

lemma mem_rmatch_lit:
  "t \<in> set (rmatch ic n (lit w) s) \<longleftrightarrow>
     (\<exists>p. s = p @ t \<and> map (canonicalize ic) p = map (canonicalize ic) w)"
proof (induction w arbitrary: s)
  case Nil
  show ?case by (auto simp: set_rmatch_Empty)
next
  case (Cons a w)
  show ?case
    unfolding lit.simps mem_rmatch_Cat set_rmatch_Chr Cons.IH
    by (auto simp: Cons_eq_map_conv map_eq_Cons_conv)
qed

lemma lower_literals:
  "map toLowerCase_char ''png'' = ''png''"
  "map toLowerCase_char ''jp'' = ''jp''"
  "map toLowerCase_char ''gif'' = ''gif''"
  "map toLowerCase_char ''webp'' = ''webp''"
  "map toLowerCase_char ''svg'' = ''svg''"
  "toLowerCase_char CHR ''e'' = CHR ''e''"
  "toLowerCase_char CHR ''g'' = CHR ''g''"
  "toLowerCase_char CHR ''.'' = CHR ''.''"
  by (simp_all add: toLowerCase_char_def is_upper_ascii_def)

lemma map_canonicalize_ignoreCase:
  "map (canonicalize True) p = map (canonicalize True) w \<longleftrightarrow>
     map toLowerCase_char p = map toLowerCase_char w"
proof (induction p arbitrary: w)
  case Nil
  show ?case by auto
next
  case (Cons a p)
  show ?case by (cases w) (auto simp: canonicalize_ignoreCase Cons.IH)
qed

lemma mem_rmatch_lit_ignoreCase:
  "t \<in> set (rmatch True n (lit w) s) \<longleftrightarrow>
     (\<exists>p. s = p @ t \<and> map toLowerCase_char p = map toLowerCase_char w)"
  by (simp add: mem_rmatch_lit map_canonicalize_ignoreCase)

lemma mem_rmatch_jpeg:
  "t \<in> set (rmatch True n (Cat (lit ''jp'') (Cat (Opt (Chr CHR ''e'')) (Chr CHR ''g''))) s) \<longleftrightarrow>
     (\<exists>p. s = p @ t \<and> (map toLowerCase_char p = ''jpg'' \<or> map toLowerCase_char p = ''jpeg''))"
  (is "?L \<longleftrightarrow> ?R")
proof
  assume ?L
  then obtain r1 r2 where r: "r1 \<in> set (rmatch True n (lit ''jp'') s)"
      "r2 \<in> set (rmatch True n (Opt (Chr CHR ''e'')) r1)"
      "t \<in> set (rmatch True n (Chr CHR ''g'') r2)"
    unfolding mem_rmatch_Cat by blast
  from r(1) have "\<exists>p. s = p @ r1 \<and> map toLowerCase_char p = ''jp''"
    by (simp only: mem_rmatch_lit_ignoreCase lower_literals)
  then obtain p where p: "s = p @ r1" "map toLowerCase_char p = ''jp''"
    by (elim exE conjE)
  from r(3) have "\<exists>g. r2 = g # t \<and> toLowerCase_char g = CHR ''g''"
    by (simp only: set_rmatch_Chr canonicalize_ignoreCase lower_literals)
  then obtain g where g: "r2 = g # t" "toLowerCase_char g = CHR ''g''"
    by (elim exE conjE)
  from r(2) have "(\<exists>e. r1 = e # r2 \<and> toLowerCase_char e = CHR ''e'') \<or> r2 = r1"
    by (simp only: set_rmatch_Opt set_rmatch_Chr canonicalize_ignoreCase lower_literals)
  then show ?R
  proof (elim disjE exE conjE)
    fix e assume 1: "r1 = e # r2" "toLowerCase_char e = CHR ''e''"
    have "s = (p @ [e, g]) @ t" "map toLowerCase_char (p @ [e, g]) = ''jpeg''"
      using p g 1 by simp_all
    then show ?thesis by (intro exI [of _ "p @ [e, g]"] conjI disjI2)
  next
    assume 2: "r2 = r1"
    have "s = (p @ [g]) @ t" "map toLowerCase_char (p @ [g]) = ''jpg''"
      using p g 2 by simp_all
    then show ?thesis by (intro exI [of _ "p @ [g]"] conjI disjI1)
  qed
next
  assume ?R
  then obtain p where p: "s = p @ t" "map toLowerCase_char p = ''jpg'' \<or> map toLowerCase_char p = ''jpeg''"
    by (elim exE conjE)
  from p(2) show ?L
  proof
    assume "map toLowerCase_char p = ''jpg''"
    then obtain a b c where abc: "p = [a, b, c]" "map toLowerCase_char [a, b] = ''jp''"
      "toLowerCase_char c = CHR ''g''"
      by (auto simp: map_eq_Cons_conv)
    have "s = [a, b] @ (c # t)" using abc p(1) by simp
    with abc(2) have 1: "c # t \<in> set (rmatch True n (lit ''jp'') s)"
      by (simp only: mem_rmatch_lit_ignoreCase lower_literals) (rule exI [of _ "[a, b]"], simp)
    have 2: "c # t \<in> set (rmatch True n (Opt (Chr CHR ''e'')) (c # t))"
      by (simp add: set_rmatch_Opt)
    have 3: "t \<in> set (rmatch True n (Chr CHR ''g'') (c # t))"
      using abc(3) by (simp add: set_rmatch_Chr canonicalize_ignoreCase lower_literals)
    show ?L unfolding mem_rmatch_Cat using 1 2 3 by (intro exI conjI)
  next
    assume "map toLowerCase_char p = ''jpeg''"
    then obtain a b e c where abc: "p = [a, b, e, c]" "map toLowerCase_char [a, b] = ''jp''"
      "toLowerCase_char e = CHR ''e''" "toLowerCase_char c = CHR ''g''"
      by (auto simp: map_eq_Cons_conv)
    have "s = [a, b] @ (e # c # t)" using abc p(1) by simp
    with abc(2) have 1: "e # c # t \<in> set (rmatch True n (lit ''jp'') s)"
      by (simp only: mem_rmatch_lit_ignoreCase lower_literals) (rule exI [of _ "[a, b]"], simp)
    have 2: "c # t \<in> set (rmatch True n (Opt (Chr CHR ''e'')) (e # c # t))"
      using abc(3) by (simp add: set_rmatch_Opt set_rmatch_Chr canonicalize_ignoreCase lower_literals)
    have 3: "t \<in> set (rmatch True n (Chr CHR ''g'') (c # t))"
      using abc(4) by (simp add: set_rmatch_Chr canonicalize_ignoreCase lower_literals)
    show ?L unfolding mem_rmatch_Cat using 1 2 3 by (intro exI conjI)
  qed
qed

lemma rmatch_image_pattern:
  "rmatch True n image_pattern s \<noteq> [] \<longleftrightarrow>
     map toLowerCase_char s \<in> {''.png'', ''.jpg'', ''.jpeg'', ''.gif'', ''.webp'', ''.svg''}"
proof -
  have "rmatch True n image_pattern s \<noteq> [] \<longleftrightarrow>
      (\<exists>c p. s = c # p \<and> toLowerCase_char c = CHR ''.'' \<and>
        (map toLowerCase_char p = ''png'' \<or> map toLowerCase_char p = ''jpg'' \<or>
         map toLowerCase_char p = ''jpeg'' \<or> map toLowerCase_char p = ''gif'' \<or>
         map toLowerCase_char p = ''webp'' \<or> map toLowerCase_char p = ''svg''))"
    unfolding rmatch_nonempty_iff image_pattern_def mem_rmatch_Cat [of _ _ _ "Chr CHR ''.''"]
      mem_rmatch_Cat [of _ _ _ "Alt _ _"] set_rmatch_Alt mem_rmatch_jpeg
      mem_rmatch_lit_ignoreCase set_rmatch_Chr set_rmatch_Eol
      canonicalize_ignoreCase lower_literals
    by auto
  also have "\<dots> \<longleftrightarrow>
     map toLowerCase_char s \<in> {''.png'', ''.jpg'', ''.jpeg'', ''.gif'', ''.webp'', ''.svg''}"
    by (cases s) auto
  finally show ?thesis .
qed

lemma matches_at_image_pattern:
  "matches_at True image_pattern s i \<longleftrightarrow>
     drop i (map toLowerCase_char s) \<in> {''.png'', ''.jpg'', ''.jpeg'', ''.gif'', ''.webp'', ''.svg''}"
  unfolding matches_at_def rmatch_image_pattern drop_map ..

lemma suffix_iff_drop:
  "suffix x s \<longleftrightarrow> (\<exists>i \<in> set [0 ..< Suc (length s)]. drop i s = x)"
proof
  assume "suffix x s"
  then obtain z where "s = z @ x" by (auto simp: suffix_def)
  then have "drop (length z) s = x" "length z \<in> set [0 ..< Suc (length s)]" by auto
  then show "\<exists>i \<in> set [0 ..< Suc (length s)]. drop i s = x" by blast
next
  assume "\<exists>i \<in> set [0 ..< Suc (length s)]. drop i s = x"
  then show "suffix x s" by (metis suffix_drop)
qed

lemma test_image_pattern: "test True image_pattern s \<longleftrightarrow> has_image_extension s"
proof -
  have "test True image_pattern s \<longleftrightarrow>
          (\<exists>i \<in> set [0 ..< Suc (length s)]. matches_at True image_pattern s i)"
    unfolding test_def exec_index_def by (auto simp: find_None_iff)
  also have "\<dots> \<longleftrightarrow> has_image_extension s"
    unfolding has_image_extension_def image_extensions_def matches_at_image_pattern
      list_ex_Cons_iff list_ex_Nil_iff suffix_iff_drop [of _ "map toLowerCase_char s"]
    by (simp only: length_map) auto
  finally show ?thesis .
qed

lemma scan_inv_init: "scan_inv path (length path) extname_init"
  by (simp add: scan_inv_def extname_init_def)

lemma scan_inv_result: "scan_inv path k st \<Longrightarrow> scan_result path st"
  unfolding scan_inv_def scan_result_def by (cases "startDot st = -1") auto

lemma scan_result_startPart:
  "scan_result path st \<Longrightarrow> scan_result path (st\<lparr>startPart := v\<rparr>)"
  by (simp add: scan_result_def)

lemma nat_int_succ: "nat (int i + 1) = Suc i"
  by arith

lemma scan_inv_step_dot:
  assumes inv: "scan_inv path (Suc i) st" and dot: "path ! i = CHR ''.''"
  shows "scan_inv path i
     (let st1 = (if endPos st = -1 then st\<lparr>matchedSlash := False, endPos := int i + 1\<rparr> else st)
      in (if startDot st1 = -1 then st1\<lparr>startDot := int i\<rparr>
          else if preDotState st1 \<noteq> 1 then st1\<lparr>preDotState := 1\<rparr> else st1))"
proof (cases "endPos st = -1")
  case True
  with inv have "startDot st = -1" "Suc i \<le> length path"
    by (simp_all add: scan_inv_def)
  with True show ?thesis
    by (auto simp: scan_inv_def Let_def dot nat_int_succ)
next
  case False
  note e = False
  show ?thesis
  proof (cases "startDot st = -1")
    case True
    with inv e have "\<forall>j. i < j \<and> j < nat (endPos st) \<longrightarrow> path ! j \<noteq> CHR ''.'' \<and> path ! j \<noteq> CHR ''/''"
      and "\<not> matchedSlash st" "int (Suc i) < endPos st" "endPos st \<le> int (length path)"
      "Suc i \<le> length path"
      by (simp_all add: scan_inv_def Suc_le_eq)
    with True e show ?thesis
      by (simp add: scan_inv_def Let_def dot)
  next
    case False
    with inv e show ?thesis
      by (simp add: scan_inv_def Let_def)
  qed
qed

lemma scan_inv_step_other:
  assumes inv: "scan_inv path (Suc i) st"
    and ndot: "path ! i \<noteq> CHR ''.''" and nslash: "path ! i \<noteq> CHR ''/''"
  shows "scan_inv path i
     (let st1 = (if endPos st = -1 then st\<lparr>matchedSlash := False, endPos := int i + 1\<rparr> else st)
      in (if startDot st1 \<noteq> -1 then st1\<lparr>preDotState := -1\<rparr> else st1))"
proof (cases "endPos st = -1")
  case True
  with inv have s: "startDot st = -1" "Suc i \<le> length path"
    by (simp_all add: scan_inv_def)
  have "\<forall>j. i \<le> j \<and> j < Suc i \<longrightarrow> path ! j \<noteq> CHR ''.'' \<and> path ! j \<noteq> CHR ''/''"
    using ndot nslash by (metis le_antisym less_Suc_eq_le)
  with True s show ?thesis
    by (simp add: scan_inv_def Let_def nat_int_succ)
next
  case False
  note e = False
  show ?thesis
  proof (cases "startDot st = -1")
    case True
    with inv e have old: "\<forall>j. Suc i \<le> j \<and> j < nat (endPos st) \<longrightarrow> path ! j \<noteq> CHR ''.'' \<and> path ! j \<noteq> CHR ''/''"
      and r: "\<not> matchedSlash st" "int (Suc i) < endPos st" "endPos st \<le> int (length path)"
      "Suc i \<le> length path"
      by (simp_all add: scan_inv_def)
    have "\<forall>j. i \<le> j \<and> j < nat (endPos st) \<longrightarrow> path ! j \<noteq> CHR ''.'' \<and> path ! j \<noteq> CHR ''/''"
      using old ndot nslash by (metis Suc_leI le_neq_implies_less)
    with True e r show ?thesis
      by (simp add: scan_inv_def Let_def)
  next
    case False
    with inv e show ?thesis
      by (simp add: scan_inv_def Let_def)
  qed
qed

lemma scan_inv_step_slash:
  assumes "scan_inv path (Suc i) st" "matchedSlash st"
  shows "scan_inv path i st"
  using assms unfolding scan_inv_def by auto

lemma extname_loop_result:
  "scan_inv path k st \<Longrightarrow> scan_result path (extname_loop path k st)"
proof (induction k arbitrary: st)
  case 0
  then show ?case by (simp add: scan_inv_result)
next
  case (Suc i)
  show ?case
  proof (cases "path ! i = CHR ''/''")
    case True
    then show ?thesis
      using Suc.prems Suc.IH [OF scan_inv_step_slash [OF Suc.prems]]
      by (simp add: scan_result_startPart scan_inv_result)
  next
    case False
    note nslash = False
    show ?thesis
    proof (cases "path ! i = CHR ''.''")
      case True
      show ?thesis
        using Suc.IH [OF scan_inv_step_dot [OF Suc.prems True]] True
        by (simp add: Let_def)
    next
      case False
      show ?thesis
        using Suc.IH [OF scan_inv_step_other [OF Suc.prems False nslash]] False nslash
        by (simp add: Let_def)
    qed
  qed
qed

lemma slice_nth:
  assumes "0 \<le> a" "a < b" "b \<le> int (length s)"
  shows "slice s a b = s ! nat a # map (\<lambda>j. s ! j) [Suc (nat a) ..< nat b]"
proof -
  have "slice s a b = take (nat b - nat a) (drop (nat a) s)"
    using assms by (simp add: slice_def Let_def min_def nat_diff_distrib)
  also have "\<dots> = map (\<lambda>j. s ! j) [nat a ..< nat b]"
    using assms by (auto simp: list_eq_iff_nth_eq)
  also have "[nat a ..< nat b] = nat a # [Suc (nat a) ..< nat b]"
    using assms by (simp add: upt_conv_Cons)
  finally show ?thesis by simp
qed

lemma slice_sublist:
  assumes "0 \<le> a" "a < b" "b \<le> int (length s)"
  shows "s = take (nat a) s @ slice s a b @ drop (nat b) s"
proof -
  have "slice s a b = take (nat b - nat a) (drop (nat a) s)"
    using assms by (simp add: slice_def Let_def min_def nat_diff_distrib)
  moreover have "drop (nat b) s = drop (nat b - nat a) (drop (nat a) s)"
    using assms by simp
  ultimately show ?thesis by (metis append_take_drop_id)
qed

lemma extname_shape: "extension_shape (extname path)"
proof -
  define st where "st = extname_loop path (length path) extname_init"
  have r: "scan_result path st"
    unfolding st_def by (rule extname_loop_result [OF scan_inv_init])
  show ?thesis
  proof (cases "startDot st = -1")
    case True
    then show ?thesis
      by (simp add: extname_def Let_def extension_shape_def flip: st_def)
  next
    case False
    with r have b: "0 \<le> startDot st" "startDot st < endPos st" "endPos st \<le> int (length path)"
      and d: "path ! nat (startDot st) = CHR ''.''"
      and n: "\<And>j. nat (startDot st) < j \<Longrightarrow> j < nat (endPos st) \<Longrightarrow>
               path ! j \<noteq> CHR ''.'' \<and> path ! j \<noteq> CHR ''/''"
      by (auto simp: scan_result_def)
    have "\<And>c. c \<in> set (map (\<lambda>j. path ! j) [Suc (nat (startDot st)) ..< nat (endPos st)]) \<Longrightarrow>
             c \<noteq> CHR ''.'' \<and> c \<noteq> CHR ''/''"
    proof -
      fix c assume "c \<in> set (map (\<lambda>j. path ! j) [Suc (nat (startDot st)) ..< nat (endPos st)])"
      then obtain j where "c = path ! j" "nat (startDot st) < j" "j < nat (endPos st)"
        by (auto simp: Suc_le_eq)
      then show "c \<noteq> CHR ''.'' \<and> c \<noteq> CHR ''/''" using n by simp
    qed
    then have "extension_shape (slice path (startDot st) (endPos st))"
      unfolding slice_nth [OF b] extension_shape_def list.sel using d by metis
    then show ?thesis
      by (simp add: extname_def Let_def extension_shape_def flip: st_def)
  qed
qed

lemma extname_is_slice: "\<exists>pre post. path = pre @ extname path @ post"
proof -
  define st where "st = extname_loop path (length path) extname_init"
  have r: "scan_result path st"
    unfolding st_def by (rule extname_loop_result [OF scan_inv_init])
  show ?thesis
  proof (cases "extname path = []")
    case True
    then have "path = path @ extname path @ []" by simp
    then show ?thesis by blast
  next
    case False
    then have e: "extname path = slice path (startDot st) (endPos st)" and "startDot st \<noteq> -1"
      by (auto simp: extname_def Let_def simp flip: st_def split: if_splits)
    with r have b: "0 \<le> startDot st" "startDot st < endPos st" "endPos st \<le> int (length path)"
      by (auto simp: scan_result_def)
    show ?thesis unfolding e using slice_sublist [OF b] by blast
  qed
qed

lemma digit_char_is_digit: "d < 10 \<Longrightarrow> is_digit_ascii (digit_char d)"
  by (simp add: is_digit_ascii_def digit_char_def)

lemma show_nat_digits: "show_nat n \<noteq> [] \<and> list_all is_digit_ascii (show_nat n)"
proof (induction n rule: show_nat.induct)
  case (1 n)
  show ?case
  proof (cases "n < 10")
    case True
    then show ?thesis
      by (subst (1 2) show_nat.simps) (simp add: digit_char_is_digit)
  next
    case False
    then show ?thesis
      using 1 by (subst (1 2) show_nat.simps) (simp add: digit_char_is_digit)
  qed
qed

lemma digit_not_special:
  "is_digit_ascii c \<Longrightarrow> c \<noteq> CHR ''.'' \<and> c \<noteq> CHR ''/'' \<and> c \<noteq> CHR ''-''"
  by (auto simp: is_digit_ascii_def)

lemma rmatch_api_suffix:
  "t \<in> set (rmatch False n api_suffix_pattern s) \<longleftrightarrow> t = [] \<and> (s = ''/api'' \<or> s = ''/api/'')"
proof -
  have "t \<in> set (rmatch False n api_suffix_pattern s) \<longleftrightarrow>
          t = [] \<and> (\<exists>r. (\<exists>p. s = p @ r \<and> p = ''/api'') \<and> (r = ''/'' \<or> r = []))"
    unfolding api_suffix_pattern_def mem_rmatch_Cat mem_rmatch_lit set_rmatch_Opt set_rmatch_Chr
      set_rmatch_Eol canonicalize_def if_False map_ident
    by auto
  also have "\<dots> \<longleftrightarrow> t = [] \<and> (s = ''/api'' \<or> s = ''/api/'')"
    by auto
  finally show ?thesis .
qed

lemma matches_at_api_suffix:
  "matches_at False api_suffix_pattern s i \<longleftrightarrow> drop i s = ''/api'' \<or> drop i s = ''/api/''"
  unfolding matches_at_def rmatch_nonempty_iff rmatch_api_suffix by simp

lemma hd_rmatch_api_suffix:
  "rmatch False n api_suffix_pattern s \<noteq> [] \<Longrightarrow> hd (rmatch False n api_suffix_pattern s) = []"
proof -
  assume "rmatch False n api_suffix_pattern s \<noteq> []"
  then have "hd (rmatch False n api_suffix_pattern s) \<in> set (rmatch False n api_suffix_pattern s)"
    by (rule hd_in_set)
  then show ?thesis unfolding rmatch_api_suffix by simp
qed

lemma suffix_iff_drop_le: "suffix x s \<longleftrightarrow> (\<exists>i. i \<le> length s \<and> drop i s = x)"
proof
  assume "suffix x s"
  then obtain z where "s = z @ x" by (auto simp: suffix_def)
  then have "length z \<le> length s \<and> drop (length z) s = x" by simp
  then show "\<exists>i. i \<le> length s \<and> drop i s = x" ..
next
  assume "\<exists>i. i \<le> length s \<and> drop i s = x"
  then show "suffix x s" by (metis suffix_drop)
qed

lemma find_Some_holds: "List.find P xs = Some x \<Longrightarrow> P x \<and> x \<in> set xs"
  by (induction xs) (auto split: if_splits)

lemma replace_api_suffix:
  "replace False api_suffix_pattern s [] = strip_api_suffix s"
proof (cases "exec_index False api_suffix_pattern s")
  case None
  then have "\<forall>i \<in> set [0 ..< Suc (length s)]. \<not> matches_at False api_suffix_pattern s i"
    unfolding exec_index_def find_None_iff by blast
  then have n: "\<And>i. i \<le> length s \<Longrightarrow> \<not> matches_at False api_suffix_pattern s i"
    by (metis atLeastLessThan_iff le0 less_Suc_eq_le set_upt)
  have "\<not> suffix ''/api/'' s"
  proof
    assume "suffix ''/api/'' s"
    then obtain i where "i \<le> length s" "drop i s = ''/api/''"
      unfolding suffix_iff_drop_le by (elim exE conjE)
    then show False using n [of i] by (simp add: matches_at_api_suffix)
  qed
  moreover have "\<not> suffix ''/api'' s"
  proof
    assume "suffix ''/api'' s"
    then obtain i where "i \<le> length s" "drop i s = ''/api''"
      unfolding suffix_iff_drop_le by (elim exE conjE)
    then show False using n [of i] by (simp add: matches_at_api_suffix)
  qed
  ultimately show ?thesis
    using None by (simp add: replace_def strip_api_suffix_def)
next
  case (Some i)
  then have "matches_at False api_suffix_pattern s i \<and> i \<in> set [0 ..< Suc (length s)]"
    unfolding exec_index_def by (rule find_Some_holds)
  then have m: "matches_at False api_suffix_pattern s i" and i: "i \<le> length s"
    by (simp_all add: less_Suc_eq_le del: upt_Suc)
  then have h: "hd (rmatch False (length s) api_suffix_pattern (drop i s)) = []"
    using hd_rmatch_api_suffix by (simp add: matches_at_def)
  have r: "replace False api_suffix_pattern s [] = take i s"
    using Some h by (simp add: replace_def)
  from m have d: "drop i s = ''/api'' \<or> drop i s = ''/api/''"
    by (simp add: matches_at_api_suffix)
  have s: "s = take i s @ drop i s" by simp
  from d show ?thesis
  proof
    assume a: "drop i s = ''/api''"
    have "length (drop i s) = 4" by (simp only: a) simp
    then have l: "length s - i = 4" by simp
    then have "i = length s - 4" using i by arith
    moreover have "suffix ''/api'' s" using a by (metis suffix_drop)
    moreover have "\<not> suffix ''/api/'' s"
    proof
      assume "suffix ''/api/'' s"
      then obtain z where "s = z @ ''/api/''" by (auto simp: suffix_def)
      then have "last s = CHR ''/''" by simp
      moreover have "last s = last (drop i s)" using l by (simp add: last_drop)
      ultimately show False by (simp add: a)
    qed
    ultimately show ?thesis using r by (simp add: strip_api_suffix_def)
  next
    assume a: "drop i s = ''/api/''"
    have "length (drop i s) = 5" by (simp only: a) simp
    then have "length s - i = 5" by simp
    then have "i = length s - 5" using i by arith
    moreover have "suffix ''/api/'' s" using a by (metis suffix_drop)
    ultimately show ?thesis using r by (simp add: strip_api_suffix_def)
  qed
qed

lemma allowed_char_not_separator:
  "allowed_char c \<Longrightarrow> c \<noteq> CHR ''/'' \<and> c \<noteq> CHR 0x5C"
  by (auto simp: allowed_char_def is_upper_ascii_def is_lower_ascii_def is_digit_ascii_def)

lemma backendUrl_strip: "backendUrl env = strip_api_suffix (or_empty env)"
  by (simp add: backendUrl_def replace_api_suffix)

lemma backendUrl_configured:
  "backendUrl env = (case env of None \<Rightarrow> [] | Some base \<Rightarrow> strip_api_suffix base)"
  by (cases env) (simp_all add: backendUrl_strip or_empty_def strip_api_suffix_def)


lemma no_char_no_pair: "c \<notin> set xs \<Longrightarrow> \<not> sublist [c, c] xs"
proof
  assume a: "c \<notin> set xs" and b: "sublist [c, c] xs"
  from b have "set [c, c] \<subseteq> set xs" by (rule set_mono_sublist)
  then show False using a by simp
qed

lemma no_pair_append:
  assumes nx: "\<not> sublist [c, c] xs" and ny: "\<not> sublist [c, c] ys"
    and j: "xs = [] \<or> ys = [] \<or> last xs \<noteq> c \<or> hd ys \<noteq> c"
  shows "\<not> sublist [c, c] (xs @ ys)"
proof
  assume "sublist [c, c] (xs @ ys)"
  then have "sublist [c, c] xs \<or> sublist [c, c] ys \<or>
      (\<exists>a b. [c, c] = a @ b \<and> suffix a xs \<and> prefix b ys)"
    by (simp only: sublist_append)
  then show False
  proof (elim disjE exE conjE)
    assume "sublist [c, c] xs"
    then show False by (rule notE [OF nx])
  next
    assume "sublist [c, c] ys"
    then show False by (rule notE [OF ny])
  next
    fix a b assume ab: "[c, c] = a @ b" "suffix a xs" "prefix b ys"
    have "a = [] \<and> b = [c, c] \<or> a = [c] \<and> b = [c] \<or> a = [c, c] \<and> b = []"
    proof (cases a)
      case Nil
      then show ?thesis using ab(1) by simp
    next
      case (Cons x a')
      note A = Cons
      show ?thesis
      proof (cases a')
        case Nil
        then show ?thesis using ab(1) A by auto
      next
        case (Cons y a'')
        then show ?thesis using ab(1) A by auto
      qed
    qed
    then consider "a = [] \<and> b = [c, c]" | "a = [c] \<and> b = [c]" | "a = [c, c] \<and> b = []"
      by (elim disjE)
    then show False
    proof cases
      case 1
      then have "sublist [c, c] ys" using ab(3) by (metis prefix_imp_sublist)
      then show False by (rule notE [OF ny])
    next
      case 2
      then obtain z w where "xs = z @ [c]" "ys = [c] @ w"
        using ab(2,3) by (auto simp: suffix_def prefix_def)
      then show False using j by simp
    next
      case 3
      then have "sublist [c, c] xs" using ab(2) by (metis suffix_imp_sublist)
      then show False by (rule notE [OF nx])
    qed
  qed
qed

lemma no_dot_no_dotdot: "CHR ''.'' \<notin> set xs \<Longrightarrow> \<not> sublist ''..'' xs"
  by (rule no_char_no_pair)

lemma no_dotdot_append:
  assumes "\<not> sublist ''..'' xs" "\<not> sublist ''..'' ys"
    and "xs = [] \<or> ys = [] \<or> last xs \<noteq> CHR ''.'' \<or> hd ys \<noteq> CHR ''.''"
  shows "\<not> sublist ''..'' (xs @ ys)"
  using assms by (rule no_pair_append)

lemma extension_shape_no_dotdot: "extension_shape e \<Longrightarrow> \<not> sublist ''..'' e"
proof (cases e)
  case Nil
  then show ?thesis by simp
next
  case (Cons c rest)
  assume "extension_shape e"
  then have r: "CHR ''.'' \<notin> set rest" using Cons by (simp add: extension_shape_def)
  have "\<not> sublist ''..'' ([c] @ rest)"
  proof (rule no_dotdot_append)
    show "\<not> sublist ''..'' [c]" by (auto dest: sublist_length_le)
    show "\<not> sublist ''..'' rest" using r by (rule no_dot_no_dotdot)
    show "[c] = [] \<or> rest = [] \<or> last [c] \<noteq> CHR ''.'' \<or> hd rest \<noteq> CHR ''.''"
      using r by (cases rest) auto
  qed
  then show ?thesis using Cons by simp
qed

lemma extension_shape_no_slash: "extension_shape e \<Longrightarrow> CHR ''/'' \<notin> set e"
  by (cases e) (auto simp: extension_shape_def)

lemma digits_no_dot: "list_all is_digit_ascii ds \<Longrightarrow> CHR ''.'' \<notin> set ds \<and> CHR ''/'' \<notin> set ds"
  using digit_not_special unfolding list_all_iff by blast

lemma storage_filename_safe:
  assumes fld: "CHR ''/'' \<notin> set fld" "\<not> sublist ''..'' fld"
  shows "\<not> sublist ''..'' (fld @ ''-'' @ show_nat now @ ''-'' @ show_nat rnd @ extname orig) \<and>
         CHR ''/'' \<notin> set (fld @ ''-'' @ show_nat now @ ''-'' @ show_nat rnd @ extname orig)"
proof -
  have d1: "show_nat now \<noteq> []" "CHR ''.'' \<notin> set (show_nat now)" "CHR ''/'' \<notin> set (show_nat now)"
    using show_nat_digits [of now] digits_no_dot by auto
  have d2: "show_nat rnd \<noteq> []" "CHR ''.'' \<notin> set (show_nat rnd)" "CHR ''/'' \<notin> set (show_nat rnd)"
    using show_nat_digits [of rnd] digits_no_dot by auto
  have e: "\<not> sublist ''..'' (extname orig)" "CHR ''/'' \<notin> set (extname orig)"
    using extname_shape [of orig] extension_shape_no_dotdot extension_shape_no_slash by auto
  have 1: "\<not> sublist ''..'' (show_nat rnd @ extname orig)"
  proof (rule no_dotdot_append)
    show "\<not> sublist ''..'' (show_nat rnd)" using d2(2) by (rule no_dot_no_dotdot)
    show "\<not> sublist ''..'' (extname orig)" by (rule e(1))
    show "show_nat rnd = [] \<or> extname orig = [] \<or> last (show_nat rnd) \<noteq> CHR ''.'' \<or>
          hd (extname orig) \<noteq> CHR ''.''"
      using d2(1,2) last_in_set by metis
  qed
  have 2: "\<not> sublist ''..'' (''-'' @ show_nat rnd @ extname orig)"
    by (rule no_dotdot_append) (use 1 in \<open>auto dest: sublist_length_le\<close>)
  have 3: "\<not> sublist ''..'' (show_nat now @ ''-'' @ show_nat rnd @ extname orig)"
    by (rule no_dotdot_append) (use 2 d1(2) no_dot_no_dotdot in auto)
  have 4: "\<not> sublist ''..'' (''-'' @ show_nat now @ ''-'' @ show_nat rnd @ extname orig)"
    by (rule no_dotdot_append) (use 3 in \<open>auto dest: sublist_length_le\<close>)
  have 5: "\<not> sublist ''..'' (fld @ ''-'' @ show_nat now @ ''-'' @ show_nat rnd @ extname orig)"
    by (rule no_dotdot_append) (use 4 fld(2) in auto)
  show ?thesis using 5 fld(1) d1(3) d2(3) e(2) by simp
qed

lemma set_write_file: "set (write_file dir name) = insert name (set dir)"
  by (auto simp: write_file_def)

lemma distinct_write_file: "distinct dir \<Longrightarrow> distinct (write_file dir name)"
  by (simp add: write_file_def)

lemma store_files_result:
  "store_files dir parts = (stored, dir') \<Longrightarrow>
     map file_filename stored = stored_names parts \<and>
     set dir' = set dir \<union> set (stored_names parts) \<and>
     (distinct dir \<longrightarrow> distinct dir')"
proof (induction parts arbitrary: dir stored dir')
  case Nil
  then show ?case by (simp add: stored_names_def)
next
  case (Cons p parts)
  obtain f now rnd where p: "p = (f, now, rnd)" by (cases p)
  obtain st d where r: "store_files (write_file dir (storage_filename f now rnd)) parts = (st, d)"
    by (cases "store_files (write_file dir (storage_filename f now rnd)) parts")
  from Cons.IH [OF r] Cons.prems show ?case
    by (auto simp: p r stored_names_def set_write_file distinct_write_file)
qed

lemma upload_request_result:
  assumes "upload_request env dir parts = (r, dir')"
  shows "response_filenames r = stored_names parts \<and>
         set dir' = set dir \<union> set (stored_names parts) \<and> (distinct dir \<longrightarrow> distinct dir')"
proof -
  obtain st d where s: "store_files dir parts = (st, d)" by (cases "store_files dir parts")
  with assms have r: "r = post_media env (Inr (Some st))" and d: "dir' = d"
    by (simp_all add: upload_request_def)
  have "response_filenames r = map file_filename st"
    by (simp add: r response_filenames_def post_media_def upload_media_def media_entry_def comp_def)
  with store_files_result [OF s] d show ?thesis by simp
qed

lemma upload_requests_result:
  "upload_requests env dir reqs = (rs, dir') \<Longrightarrow>
     concat (map response_filenames rs) = concat (map stored_names reqs) \<and>
     set dir' = set dir \<union> set (concat (map stored_names reqs)) \<and>
     (distinct dir \<longrightarrow> distinct dir')"
proof (induction reqs arbitrary: dir rs dir')
  case Nil
  then show ?case by simp
next
  case (Cons parts rest)
  obtain r d1 where a: "upload_request env dir parts = (r, d1)"
    by (cases "upload_request env dir parts")
  obtain rs2 d2 where b: "upload_requests env d1 rest = (rs2, d2)"
    by (cases "upload_requests env d1 rest")
  from Cons.prems a b have e: "rs = r # rs2" "dir' = d2" by simp_all
  from upload_request_result [OF a] Cons.IH [OF b] show ?case
    unfolding e by auto
qed

lemma test_image_pattern_eq: "test True image_pattern = has_image_extension"
  by (rule ext) (rule test_image_pattern)

lemma list_media_filenames:
  "response_filenames (list_media env (Inr dir)) = filter has_image_extension dir"
  by (simp add: list_media_def test_image_pattern_eq response_filenames_def media_entry_def comp_def)

lemma toLowerCase_char_eq_dot: "toLowerCase_char c = CHR ''.'' \<longleftrightarrow> c = CHR ''.''"
proof -
  have "toLowerCase_char c = CHR ''.'' \<longleftrightarrow> (of_char (toLowerCase_char c) :: nat) = of_char CHR ''.''"
    by (simp only: of_char_eq_iff)
  also have "\<dots> \<longleftrightarrow> (of_char c :: nat) = of_char CHR ''.''"
    unfolding of_char_toLowerCase_char by auto
  also have "\<dots> \<longleftrightarrow> c = CHR ''.''"
    by (simp only: of_char_eq_iff)
  finally show ?thesis .
qed

lemma toLowerCase_char_digit: "is_digit_ascii c \<Longrightarrow> toLowerCase_char c = c"
  by (simp add: toLowerCase_char_def is_digit_ascii_def is_upper_ascii_def)

lemma unique_split_at_last:
  assumes "xs @ c # ys = xs' @ c # ys'" "c \<notin> set ys" "c \<notin> set ys'"
  shows "ys = ys'"
proof -
  have "rev ys @ c # rev xs = rev ys' @ c # rev xs'"
    using assms(1) by (metis rev_append rev.simps(2) append_assoc append_Cons append_Nil)
  moreover have "takeWhile (\<lambda>x. x \<noteq> c) (rev ys @ c # rev xs) = rev ys"
    using assms(2) by (auto simp: takeWhile_tail)
  moreover have "takeWhile (\<lambda>x. x \<noteq> c) (rev ys' @ c # rev xs') = rev ys'"
    using assms(3) by (auto simp: takeWhile_tail)
  ultimately have "rev ys = rev ys'" by simp
  then show ?thesis by simp
qed

lemma suffix_after_last_dot:
  assumes "CHR ''.'' \<notin> set e" "CHR ''.'' \<notin> set r"
  shows "suffix (CHR ''.'' # e) (a @ CHR ''.'' # r) \<longleftrightarrow> e = r"
proof
  assume "suffix (CHR ''.'' # e) (a @ CHR ''.'' # r)"
  then obtain z where "a @ CHR ''.'' # r = z @ CHR ''.'' # e" by (auto simp: suffix_def)
  then show "e = r" using assms unique_split_at_last by metis
next
  assume "e = r"
  then show "suffix (CHR ''.'' # e) (a @ CHR ''.'' # r)" by (simp add: suffix_def)
qed

lemma suffix_last: "suffix a b \<Longrightarrow> a \<noteq> [] \<Longrightarrow> last a = last b"
  by (auto simp: suffix_def)

lemma image_extensions_facts:
  "e \<in> set image_extensions \<Longrightarrow> CHR ''.'' \<notin> set e \<and> e \<noteq> [] \<and> \<not> is_digit_ascii (last e)"
  by (auto simp: image_extensions_def is_digit_ascii_def)

lemma has_image_extension_storage_filename:
  "has_image_extension (storage_filename f now rnd) \<longleftrightarrow>
     map toLowerCase_char (extname (originalname f)) \<in> set (map ((@) ''.'') image_extensions)"
proof -
  define x where "x = fieldname f @ ''-'' @ show_nat now @ ''-'' @ show_nat rnd"
  have name: "storage_filename f now rnd = x @ extname (originalname f)"
    by (simp add: storage_filename_def x_def)
  have lastx: "x \<noteq> []" "is_digit_ascii (last x)"
    using show_nat_digits [of rnd] by (auto simp: x_def list_all_iff)
  have h: "has_image_extension (storage_filename f now rnd) \<longleftrightarrow>
      (\<exists>e \<in> set image_extensions.
         suffix (CHR ''.'' # e) (map toLowerCase_char x @ map toLowerCase_char (extname (originalname f))))"
    by (simp add: has_image_extension_def list_ex_iff name)
  show ?thesis
  proof (cases "extname (originalname f)")
    case Nil
    have "\<not> suffix (CHR ''.'' # e) (map toLowerCase_char x)" if "e \<in> set image_extensions" for e
    proof
      assume "suffix (CHR ''.'' # e) (map toLowerCase_char x)"
      then have "last (CHR ''.'' # e) = last (map toLowerCase_char x)"
        by (rule suffix_last) simp
      moreover have "last (map toLowerCase_char x) = last x"
        using lastx by (simp add: last_map toLowerCase_char_digit)
      moreover have "last (CHR ''.'' # e) = last e"
        using image_extensions_facts [OF that] by simp
      ultimately show False
        using image_extensions_facts [OF that] lastx(2) by simp
    qed
    then show ?thesis unfolding h using Nil by auto
  next
    case (Cons c rest)
    with extname_shape [of "originalname f"]
    have c: "c = CHR ''.''" and r: "CHR ''.'' \<notin> set rest"
      by (simp_all add: extension_shape_def)
    have r': "CHR ''.'' \<notin> set (map toLowerCase_char rest)"
    proof
      assume "CHR ''.'' \<in> set (map toLowerCase_char rest)"
      then obtain y where y: "y \<in> set rest" "toLowerCase_char y = CHR ''.''"
        by (auto simp: image_iff)
      from y(2) have "y = CHR ''.''" by (simp only: toLowerCase_char_eq_dot)
      with y(1) r show False by simp
    qed
    have lc: "toLowerCase_char c = CHR ''.''"
      using c by (simp add: toLowerCase_char_eq_dot)
    have "(\<exists>e \<in> set image_extensions.
         suffix (CHR ''.'' # e) (map toLowerCase_char x @ CHR ''.'' # map toLowerCase_char rest)) \<longleftrightarrow>
       (\<exists>e \<in> set image_extensions. e = map toLowerCase_char rest)"
      using suffix_after_last_dot [OF _ r'] image_extensions_facts by (metis (no_types, lifting))
    then show ?thesis
      unfolding h Cons by (auto simp: lc)
  qed
qed

lemma length_concat_stored_names:
  "length (concat (map stored_names reqs)) = length (concat reqs)"
  by (induction reqs) (simp_all add: stored_names_def)

lemma stored_names_allowlisted:
  assumes "list_all (list_all (\<lambda>p. original_extension_allowlisted (fst p))) reqs"
    and "n \<in> set (concat (map stored_names reqs))"
  shows "has_image_extension n"
proof -
  from assms(2) obtain parts f now rnd where
    p: "parts \<in> set reqs" "(f, now, rnd) \<in> set parts" "n = storage_filename f now rnd"
    by (auto simp: stored_names_def)
  with assms(1) have "original_extension_allowlisted (fst (f, now, rnd))"
    unfolding list_all_iff by blast
  then have "original_extension_allowlisted f" by simp
  then show ?thesis
    unfolding p(3) has_image_extension_storage_filename original_extension_allowlisted_def .
qed

section \<open>The upload filter\<close>

text \<open>
  C3. The upload filter accepts a file exactly when its declared content type begins with
  \<open>image/\<close>: such a file is accepted, every other file is rejected with the not-an-image
  error, and the filter returns nothing else.
\<close>

theorem fileFilter_accepts_iff_image_prefix:
  "(fileFilter f = Inr True \<longleftrightarrow> (\<exists>rest. mimetype f = ''image/'' @ rest)) \<and>
   (fileFilter f = Inl not_an_image \<longleftrightarrow> \<not> (\<exists>rest. mimetype f = ''image/'' @ rest)) \<and>
   (fileFilter f = Inr True \<or> fileFilter f = Inl not_an_image)"
proof -
  have "startsWith (mimetype f) ''image/'' \<longleftrightarrow> (\<exists>rest. mimetype f = ''image/'' @ rest)"
  proof
    assume "startsWith (mimetype f) ''image/''"
    then have "take (length ''image/'') (mimetype f) = ''image/''"
      unfolding startsWith_def by (metis (full_types))
    then have "mimetype f = ''image/'' @ drop (length ''image/'') (mimetype f)"
      by (metis append_take_drop_id)
    then show "\<exists>rest. mimetype f = ''image/'' @ rest" ..
  next
    assume "\<exists>rest. mimetype f = ''image/'' @ rest"
    then obtain rest where "mimetype f = ''image/'' @ rest" ..
    then show "startsWith (mimetype f) ''image/''"
      by (simp add: startsWith_def)
  qed
  then show ?thesis
    by (simp add: fileFilter_def)
qed

theorem fileFilter_accepts_iff_image_prefix_witness:
  "fileFilter \<lparr>fieldname = ''images'', originalname = ''a.png'', mimetype = ''image/png'', size = 10\<rparr>
     = Inr True \<and>
   fileFilter \<lparr>fieldname = ''images'', originalname = ''a.txt'', mimetype = ''text/plain'', size = 10\<rparr>
     = Inl not_an_image"
  using fileFilter_accepts_iff_image_prefix
    [of "\<lparr>fieldname = ''images'', originalname = ''a.png'', mimetype = ''image/png'', size = 10\<rparr>"]
    fileFilter_accepts_iff_image_prefix
    [of "\<lparr>fieldname = ''images'', originalname = ''a.txt'', mimetype = ''text/plain'', size = 10\<rparr>"]
  by simp

section \<open>Deleting a file\<close>

text \<open>
  C2, as amended. A delete request whose filename holds a character other than a letter,
  a digit, \<open>_\<close>, \<open>-\<close> or \<open>.\<close> (so any name with a path separator) is answered with
  400 and \<open>Invalid filename\<close> without a call of \<open>unlink\<close> and with the directory as it
  was; and a name with which \<open>unlink\<close> is called is non-empty, holds only such characters,
  and so holds neither \<open>/\<close> nor a backslash.
\<close>

theorem delete_media_unlink_after_validation:
  "(\<not> list_all allowed_char name \<longrightarrow>
      delete_media subdirs dir name =
        \<lparr>reply = \<lparr>status = 400, body = Error_body ''Invalid filename''\<rparr>,
         unlink_calls = [], dir_after = dir\<rparr>) \<and>
   (unlink_calls (delete_media subdirs dir name) \<noteq> [] \<longrightarrow>
      unlink_calls (delete_media subdirs dir name) = [name] \<and> name \<noteq> [] \<and>
      list_all allowed_char name \<and> CHR ''/'' \<notin> set name \<and> CHR 0x5C \<notin> set name)"
proof (cases "test False filename_pattern name")
  case False
  then show ?thesis
    by (simp add: delete_media_def)
next
  case True
  then have v: "name \<noteq> []" "list_all allowed_char name"
    by (simp_all add: test_filename_pattern)
  then have "CHR ''/'' \<notin> set name \<and> CHR 0x5C \<notin> set name"
    using allowed_char_not_separator unfolding list_all_iff by blast
  moreover have "unlink_calls (delete_media subdirs dir name) = [name]"
    using True by (simp add: delete_media_def split: sum.split)
  ultimately show ?thesis using v by simp
qed

theorem delete_media_unlink_after_validation_witness:
  "delete_media [] [''a.png''] ''../etc/passwd'' =
     \<lparr>reply = \<lparr>status = 400, body = Error_body ''Invalid filename''\<rparr>,
      unlink_calls = [], dir_after = [''a.png'']\<rparr> \<and>
   unlink_calls (delete_media [] [''a.png''] ''a.png'') = [''a.png''] \<and>
   list_all allowed_char ''a.png''"
proof -
  have 1: "\<not> list_all allowed_char ''../etc/passwd''"
    by (simp add: allowed_char_def is_upper_ascii_def is_lower_ascii_def is_digit_ascii_def)
  have 2: "test False filename_pattern ''a.png''"
    by (simp add: test_filename_pattern allowed_char_def is_upper_ascii_def is_lower_ascii_def
        is_digit_ascii_def)
  then have 3: "unlink_calls (delete_media [] [''a.png''] ''a.png'') \<noteq> []"
    by (simp add: delete_media_def unlink_def name_max_def)
  show ?thesis
    using delete_media_unlink_after_validation
        [where name = "''../etc/passwd''" and subdirs = "[]" and dir = "[''a.png'']"]
      delete_media_unlink_after_validation
        [where name = "''a.png''" and subdirs = "[]" and dir = "[''a.png'']"] 1 3
    by simp
qed

text \<open>
  The name \<open>..\<close> is a path-traversal sequence made of allowed characters only: it passes
  the validation and \<open>unlink\<close> is called with it.
\<close>

theorem traversal_name_reaches_unlink:
  "sublist ''..'' ''..'' \<and> unlink_calls (delete_media [] [] ''..'') = [''..''] \<and>
   reply (delete_media [] [] ''..'') =
     \<lparr>status = 500, body = Error_body ''Failed to delete media''\<rparr>"
proof -
  have "test False filename_pattern ''..''"
    by (simp add: test_filename_pattern allowed_char_def)
  then show ?thesis
    by (simp add: delete_media_def unlink_def name_max_def)
qed

text \<open>
  C9, as amended. A delete request whose filename passes the validation and for which
  \<open>unlink\<close> finds no entry (\<open>ENOENT\<close>: the name is no longer than the file system allows,
  is neither \<open>.\<close> nor \<open>..\<close>, and is the name of no file and of no subdirectory of the
  uploads directory) is answered with 404 and \<open>File not found\<close>, which is not the 500 of
  the generic failure, and the directory is left as it was. A validated filename for
  which \<open>unlink\<close> fails for another reason is answered with the generic 500, the
  directory again left as it was.
\<close>

theorem delete_media_not_found_on_enoent:
  assumes "test False filename_pattern name"
  shows "(unlink subdirs dir name = Inl ENOENT \<longleftrightarrow>
            length name \<le> name_max \<and> name \<notin> set (''.'' # ''..'' # subdirs @ dir)) \<and>
         (unlink subdirs dir name = Inl ENOENT \<longrightarrow>
            reply (delete_media subdirs dir name) =
              \<lparr>status = 404, body = Error_body ''File not found''\<rparr> \<and>
            status (reply (delete_media subdirs dir name)) \<noteq> 500 \<and>
            dir_after (delete_media subdirs dir name) = dir) \<and>
         (unlink subdirs dir name = Inl e \<and> e \<noteq> ENOENT \<longrightarrow>
            reply (delete_media subdirs dir name) =
              \<lparr>status = 500, body = Error_body ''Failed to delete media''\<rparr> \<and>
            dir_after (delete_media subdirs dir name) = dir)"
proof (intro conjI impI)
  show "unlink subdirs dir name = Inl ENOENT \<longleftrightarrow>
          length name \<le> name_max \<and> name \<notin> set (''.'' # ''..'' # subdirs @ dir)"
    by (auto simp: unlink_def)
next
  assume "unlink subdirs dir name = Inl ENOENT"
  then show "reply (delete_media subdirs dir name) =
      \<lparr>status = 404, body = Error_body ''File not found''\<rparr>"
    and "status (reply (delete_media subdirs dir name)) \<noteq> 500"
    and "dir_after (delete_media subdirs dir name) = dir"
    using assms by (simp_all add: delete_media_def)
next
  assume "unlink subdirs dir name = Inl e \<and> e \<noteq> ENOENT"
  then show "reply (delete_media subdirs dir name) =
      \<lparr>status = 500, body = Error_body ''Failed to delete media''\<rparr>"
    and "dir_after (delete_media subdirs dir name) = dir"
    using assms by (simp_all add: delete_media_def)
qed

theorem delete_media_not_found_on_enoent_witness:
  "test False filename_pattern ''b.png'' \<and>
   unlink [''thumbs''] [''a.png''] ''b.png'' = Inl ENOENT \<and>
   reply (delete_media [''thumbs''] [''a.png''] ''b.png'') =
     \<lparr>status = 404, body = Error_body ''File not found''\<rparr> \<and>
   dir_after (delete_media [''thumbs''] [''a.png''] ''b.png'') = [''a.png''] \<and>
   test False filename_pattern ''thumbs'' \<and>
   unlink [''thumbs''] [''a.png''] ''thumbs'' = Inl EISDIR \<and>
   reply (delete_media [''thumbs''] [''a.png''] ''thumbs'') =
     \<lparr>status = 500, body = Error_body ''Failed to delete media''\<rparr>"
proof -
  have 1: "test False filename_pattern ''b.png''"
    by (simp add: test_filename_pattern allowed_char_def is_upper_ascii_def is_lower_ascii_def
        is_digit_ascii_def)
  have 2: "unlink [''thumbs''] [''a.png''] ''b.png'' = Inl ENOENT"
    by (simp add: unlink_def name_max_def)
  have 3: "test False filename_pattern ''thumbs''"
    by (simp add: test_filename_pattern allowed_char_def is_upper_ascii_def is_lower_ascii_def
        is_digit_ascii_def)
  have 4: "unlink [''thumbs''] [''a.png''] ''thumbs'' = Inl EISDIR \<and> EISDIR \<noteq> ENOENT"
    by (simp add: unlink_def name_max_def)
  show ?thesis
    using delete_media_not_found_on_enoent
        [OF 1, where subdirs = "[''thumbs'']" and dir = "[''a.png'']" and e = EISDIR]
      delete_media_not_found_on_enoent
        [OF 3, where subdirs = "[''thumbs'']" and dir = "[''a.png'']" and e = EISDIR]
      1 2 3 4
    by simp
qed

text \<open>
  The names \<open>..\<close> and a name of 256 letters pass the validation and are the names of no
  file in the uploads directory; \<open>unlink\<close> fails with another error than \<open>ENOENT\<close> and
  the answer is the generic 500, not 404.
\<close>

theorem validated_missing_name_answered_500:
  "test False filename_pattern ''..'' \<and> ''..'' \<notin> set [''a.png''] \<and>
   reply (delete_media [] [''a.png''] ''..'') =
     \<lparr>status = 500, body = Error_body ''Failed to delete media''\<rparr> \<and>
   test False filename_pattern (replicate 256 CHR ''a'') \<and>
   replicate 256 CHR ''a'' \<notin> set [''a.png''] \<and>
   reply (delete_media [] [''a.png''] (replicate 256 CHR ''a'')) =
     \<lparr>status = 500, body = Error_body ''Failed to delete media''\<rparr>"
proof -
  have 1: "test False filename_pattern ''..''"
    by (simp add: test_filename_pattern allowed_char_def)
  have 2: "test False filename_pattern (replicate 256 CHR ''a'')"
    by (simp add: test_filename_pattern list_all_iff allowed_char_def is_lower_ascii_def)
  have 3: "replicate 256 CHR ''a'' \<noteq> ''a.png''"
  proof
    assume "replicate 256 CHR ''a'' = ''a.png''"
    then have "length (replicate 256 CHR ''a'') = length ''a.png''" by (rule arg_cong)
    then show False by simp
  qed
  have 4: "reply (delete_media [] [''a.png''] ''..'') =
      \<lparr>status = 500, body = Error_body ''Failed to delete media''\<rparr>"
    using 1 by (simp add: delete_media_def unlink_def name_max_def)
  have 5: "reply (delete_media [] [''a.png''] (replicate 256 CHR ''a'')) =
      \<lparr>status = 500, body = Error_body ''Failed to delete media''\<rparr>"
    using 2 by (simp add: delete_media_def unlink_def name_max_def)
  show ?thesis using 1 2 3 4 5 by simp
qed

section \<open>Uploading\<close>

text \<open>
  C10. An upload request that passed the access checks and carries no file part, whether
  \<open>req.files\<close> is absent or the empty array, is answered with 201 and an empty data
  array.
\<close>

theorem post_media_without_files:
  "post_media env (Inr None) = \<lparr>status = 201, body = Success_data []\<rparr> \<and>
   post_media env (Inr (Some [])) = \<lparr>status = 201, body = Success_data []\<rparr>"
  by (simp add: post_media_def upload_media_def)

section \<open>Listing\<close>

text \<open>
  C8. When the directory can be read, the list operation answers 200 with exactly the
  entries whose names end, case-insensitively, in \<open>.png\<close>, \<open>.jpg\<close>, \<open>.jpeg\<close>, \<open>.gif\<close>,
  \<open>.webp\<close> or \<open>.svg\<close>, in the order of the enumeration, each with the URL made of the
  configured base URL (the value of \<open>BACKEND_URL\<close>; empty when none is configured)
  without a trailing \<open>/api\<close> or \<open>/api/\<close>, then \<open>/uploads/\<close>, then the name. No other entry
  appears.
\<close>

theorem list_media_allowlisted_entries:
  "list_media env (Inr files) =
     \<lparr>status = 200,
      body = Success_data
        (map (\<lambda>name. (name,
                (case env of None \<Rightarrow> [] | Some base \<Rightarrow> strip_api_suffix base) @
                  ''/uploads/'' @ name))
           (filter has_image_extension files))\<rparr>"
proof -
  have "test True image_pattern = has_image_extension"
    by (rule ext) (rule test_image_pattern)
  then have "filter (test True image_pattern) files = filter has_image_extension files"
    by simp
  moreover have "media_entry env =
      (\<lambda>name. (name,
         (case env of None \<Rightarrow> [] | Some base \<Rightarrow> strip_api_suffix base) @ ''/uploads/'' @ name))"
    by (rule ext) (simp add: media_entry_def backendUrl_configured)
  ultimately show ?thesis
    by (simp add: list_media_def)
qed

theorem list_media_allowlisted_entries_witness:
  "list_media (Some ''http://h/api/'') (Inr [''a.PNG'', ''notes.txt'', ''b.jpeg'']) =
     \<lparr>status = 200,
      body = Success_data [(''a.PNG'', ''http://h/uploads/a.PNG''),
                           (''b.jpeg'', ''http://h/uploads/b.jpeg'')]\<rparr> \<and>
   list_media None (Inr [''c.svg'']) =
     \<lparr>status = 200, body = Success_data [(''c.svg'', ''/uploads/c.svg'')]\<rparr>"
proof -
  have "has_image_extension ''a.PNG''" by code_simp
  moreover have "\<not> has_image_extension ''notes.txt''" by code_simp
  moreover have "has_image_extension ''b.jpeg''" by code_simp
  moreover have "has_image_extension ''c.svg''" by code_simp
  moreover have "strip_api_suffix ''http://h/api/'' = ''http://h''"
    by code_simp
  ultimately show ?thesis
    using list_media_allowlisted_entries [of "Some ''http://h/api/''" "[''a.PNG'', ''notes.txt'', ''b.jpeg'']"]
      list_media_allowlisted_entries [of None "[''c.svg'']"]
    by simp
qed

section \<open>The storage namer\<close>

text \<open>
  C5. For every original filename, also one with \<open>..\<close> or \<open>/\<close> in it, and the field
  identifier of the upload middleware (\<open>images\<close>, or \<open>image\<close> for the single upload), the
  generated filename has no \<open>..\<close> in it and no \<open>/\<close>, the directory separator of the
  host.
\<close>

theorem storage_filename_no_traversal:
  assumes "fieldname f = ''images'' \<or> fieldname f = ''image''"
  shows "\<not> sublist ''..'' (storage_filename f now rnd) \<and>
         CHR ''/'' \<notin> set (storage_filename f now rnd)"
proof -
  have "CHR ''/'' \<notin> set (fieldname f)" using assms by auto
  moreover have "CHR ''.'' \<notin> set (fieldname f)" using assms by auto
  then have "\<not> sublist ''..'' (fieldname f)" by (rule no_dot_no_dotdot)
  ultimately show ?thesis
    unfolding storage_filename_def Let_def append_assoc
    using storage_filename_safe [of "fieldname f" now rnd "originalname f"] by simp
qed

theorem storage_filename_no_traversal_witness:
  "(fieldname traversal_upload = ''images'' \<or> fieldname traversal_upload = ''image'') \<and>
   storage_filename traversal_upload 17 5 = ''images-17-5.PNG'' \<and>
   \<not> sublist ''..'' ''images-17-5.PNG'' \<and> CHR ''/'' \<notin> set ''images-17-5.PNG''"
proof -
  have 1: "fieldname traversal_upload = ''images'' \<or> fieldname traversal_upload = ''image''"
    by (simp add: traversal_upload_def)
  have 2: "storage_filename traversal_upload 17 5 = ''images-17-5.PNG''"
    by code_simp
  show ?thesis
    using storage_filename_no_traversal [OF 1, of 17 5] 1 unfolding 2 by simp
qed

text \<open>
  C6, as amended. The generated filename is the field identifier, \<open>-\<close>, the decimal digits
  of the timestamp, \<open>-\<close>, the decimal digits of the random integer, and the extension
  that \<open>path.extname\<close> takes from the original name. The extension is a piece of the
  original name as it stands: its case is not changed.
\<close>

theorem storage_filename_parts:
  "storage_filename f now rnd =
     fieldname f @ ''-'' @ show_nat now @ ''-'' @ show_nat rnd @ extname (originalname f) \<and>
   show_nat now \<noteq> [] \<and> list_all is_digit_ascii (show_nat now) \<and>
   show_nat rnd \<noteq> [] \<and> list_all is_digit_ascii (show_nat rnd) \<and>
   (\<exists>pre post. originalname f = pre @ extname (originalname f) @ post)"
  using show_nat_digits [of now] show_nat_digits [of rnd] extname_is_slice [of "originalname f"]
  by (simp add: storage_filename_def)

theorem storage_filename_parts_witness:
  "storage_filename upper_case_upload 17 5 = ''images-17-5.PNG'' \<and>
   originalname upper_case_upload = ''A'' @ extname (originalname upper_case_upload) @ []"
proof -
  have "storage_filename upper_case_upload 17 5 = ''images-17-5.PNG''" by code_simp
  moreover have "originalname upper_case_upload = ''A'' @ extname (originalname upper_case_upload) @ []"
    by code_simp
  ultimately show ?thesis
    using storage_filename_parts [of upper_case_upload 17 5] by simp
qed

text \<open>
  The extension of \<open>A.PNG\<close> stays \<open>.PNG\<close>: the generated name is not the one with the
  lower-cased extension.
\<close>

theorem extension_case_is_kept:
  "storage_filename upper_case_upload 17 5 \<noteq>
     fieldname upper_case_upload @ ''-'' @ show_nat 17 @ ''-'' @ show_nat 5 @
       map toLowerCase_char (extname (originalname upper_case_upload))"
  by code_simp

section \<open>The upload error handler\<close>

text \<open>
  What the handler translates: a multer error with the code \<open>LIMIT_FILE_SIZE\<close> or
  \<open>LIMIT_FILE_COUNT\<close> and the error of the upload filter are answered with 400 and their
  message; every other error is passed on to the error handler of the application.
\<close>

lemma handleUploadError_cases:
  "(is_multer e \<and> code e = Some ''LIMIT_FILE_SIZE'' \<longrightarrow>
      handleUploadError e =
        Respond \<lparr>status = 400, body = Error_body ''File too large. Maximum size is 5MB.''\<rparr>) \<and>
   (is_multer e \<and> code e = Some ''LIMIT_FILE_COUNT'' \<longrightarrow>
      handleUploadError e =
        Respond \<lparr>status = 400, body = Error_body ''Too many files. Maximum is 5 files.''\<rparr>) \<and>
   (fileFilter f \<noteq> Inr True \<longrightarrow>
      fileFilter f = Inl not_an_image \<and>
      handleUploadError not_an_image =
        Respond \<lparr>status = 400, body = Error_body ''Not an image! Please upload an image.''\<rparr>) \<and>
   (\<not> (is_multer e \<and> (code e = Some ''LIMIT_FILE_SIZE'' \<or> code e = Some ''LIMIT_FILE_COUNT'')) \<and>
    message e \<noteq> ''Not an image! Please upload an image.'' \<longrightarrow>
      handleUploadError e = Next_err e \<and>
      post_media env (Inl e) = app_error_handler e \<and>
      (\<not> str_includes (message e) ''CORS'' \<longrightarrow>
         app_error_handler e = \<lparr>status = 500, body = Error_body ''Something went wrong!''\<rparr>) \<and>
      (str_includes (message e) ''CORS'' \<longrightarrow>
         app_error_handler e = \<lparr>status = 403, body = Error_body (message e)\<rparr>))"
proof (intro conjI impI)
  assume "is_multer e \<and> code e = Some ''LIMIT_FILE_SIZE''"
  then show "handleUploadError e =
      Respond \<lparr>status = 400, body = Error_body ''File too large. Maximum size is 5MB.''\<rparr>"
    by (simp add: handleUploadError_def)
next
  assume "is_multer e \<and> code e = Some ''LIMIT_FILE_COUNT''"
  then show "handleUploadError e =
      Respond \<lparr>status = 400, body = Error_body ''Too many files. Maximum is 5 files.''\<rparr>"
    by (simp add: handleUploadError_def)
next
  assume "fileFilter f \<noteq> Inr True"
  then show "fileFilter f = Inl not_an_image"
    by (simp add: fileFilter_def split: if_splits)
next
  show "handleUploadError not_an_image =
      Respond \<lparr>status = 400, body = Error_body ''Not an image! Please upload an image.''\<rparr>"
    by (simp add: handleUploadError_def not_an_image_def)
next
  assume a: "\<not> (is_multer e \<and> (code e = Some ''LIMIT_FILE_SIZE'' \<or> code e = Some ''LIMIT_FILE_COUNT'')) \<and>
    message e \<noteq> ''Not an image! Please upload an image.''"
  then show n: "handleUploadError e = Next_err e"
    by (auto simp: handleUploadError_def)
  then show "post_media env (Inl e) = app_error_handler e"
    by (simp add: post_media_def)
next
  assume "\<not> str_includes (message e) ''CORS''"
  then show "app_error_handler e = \<lparr>status = 500, body = Error_body ''Something went wrong!''\<rparr>"
    by (simp add: app_error_handler_def)
next
  assume "str_includes (message e) ''CORS''"
  then show "app_error_handler e = \<lparr>status = 403, body = Error_body (message e)\<rparr>"
    by (simp add: app_error_handler_def)
qed

text \<open>
  C7. The handler is to answer each of the three validation failures with 400 and its
  message, more than five files with the too-many-files message. The code misses the
  second: a request with six image files in the field \<open>images\<close>, each acceptable by
  itself, is refused by the library with \<open>LIMIT_UNEXPECTED_FILE\<close>, not with the
  \<open>LIMIT_FILE_COUNT\<close> that the handler looks for; the handler passes the error on, and
  every copy of the application's error handler answers the generic 500.
\<close>

theorem sixth_file_answered_500:
  "length six_images = 6 \<and> list_all accepted_part six_images \<and>
   uploadMultiple_filter 5 (take 5 six_images) = None \<and>
   uploadMultiple_filter 5 six_images = Some limit_unexpected_file \<and>
   handleUploadError limit_unexpected_file = Next_err limit_unexpected_file \<and>
   post_media env (Inl limit_unexpected_file) =
     \<lparr>status = 500, body = Error_body ''Something went wrong!''\<rparr> \<and>
   app_error_handler_second limit_unexpected_file =
     \<lparr>status = 500, body = Error_body ''Something went wrong!''\<rparr>"
proof -
  have f: "fileFilter png_upload = Inr True" "fileFilter jpeg_upload = Inr True"
    by (simp_all add: fileFilter_def startsWith_def png_upload_def jpeg_upload_def)
  have n: "fieldname png_upload = ''images''" "fieldname jpeg_upload = ''images''"
    by (simp_all add: png_upload_def jpeg_upload_def)
  have 1: "length six_images = 6" by (simp add: six_images_def)
  have 2: "list_all accepted_part six_images"
    by (simp add: six_images_def accepted_part_def f n)
      (simp add: png_upload_def jpeg_upload_def fileSize_limit_def)
  have 3: "uploadMultiple_filter 5 (take 5 six_images) = None"
    by (simp add: six_images_def f n)
  have 4: "uploadMultiple_filter 5 six_images = Some limit_unexpected_file"
    by (simp add: six_images_def f n)
  have 5: "handleUploadError limit_unexpected_file = Next_err limit_unexpected_file"
    by (simp add: handleUploadError_def limit_unexpected_file_def)
  have "\<not> str_includes (message limit_unexpected_file) ''CORS''" by code_simp
  then have 6: "post_media env (Inl limit_unexpected_file) =
      \<lparr>status = 500, body = Error_body ''Something went wrong!''\<rparr>"
    by (simp add: post_media_def 5 app_error_handler_def)
  have 7: "app_error_handler_second limit_unexpected_file =
      \<lparr>status = 500, body = Error_body ''Something went wrong!''\<rparr>"
    by (simp add: app_error_handler_second_def)
  show ?thesis using 1 2 3 4 5 6 7 by (intro conjI)
qed

section \<open>Listing after uploads\<close>

text \<open>
  C4, as amended. Listing the empty directory gives an empty collection. After any
  sequence of accepted upload requests that starts from the empty directory, the list
  operation returns, each once, exactly those filenames of the upload responses that
  match its extension filter. A generated filename matches the filter exactly when the
  extension of the original name is one of the six image extensions, in any case. So
  when every uploaded file has such an original extension and the generated names are
  pairwise different, the list returns exactly the filenames of the upload responses,
  as many as files were uploaded.
\<close>

theorem listing_after_uploads:
  assumes acc: "list_all accepted_request reqs"
    and run: "upload_requests env [] reqs = (rs, dir)"
  shows "list_media env (Inr []) = \<lparr>status = 200, body = Success_data []\<rparr> \<and>
         set (response_filenames (list_media env (Inr dir))) =
           {n \<in> set (concat (map response_filenames rs)). test True image_pattern n} \<and>
         distinct (response_filenames (list_media env (Inr dir))) \<and>
         (test True image_pattern (storage_filename f now rnd) \<longleftrightarrow> original_extension_allowlisted f) \<and>
         (list_all (list_all (\<lambda>p. original_extension_allowlisted (fst p))) reqs \<and>
          distinct (concat (map response_filenames rs)) \<longrightarrow>
            set (response_filenames (list_media env (Inr dir))) =
              set (concat (map response_filenames rs)) \<and>
            length (response_filenames (list_media env (Inr dir))) = length (concat reqs))"
proof -
  let ?listed = "response_filenames (list_media env (Inr dir))"
  let ?returned = "concat (map response_filenames rs)"
  from upload_requests_result [OF run]
  have ret: "?returned = concat (map stored_names reqs)"
    and sd: "set dir = set (concat (map stored_names reqs))" and dd: "distinct dir"
    by simp_all
  have l: "?listed = filter has_image_extension dir"
    by (rule list_media_filenames)
  have 1: "list_media env (Inr []) = \<lparr>status = 200, body = Success_data []\<rparr>"
    by (simp add: list_media_def)
  have 2: "set ?listed = {n \<in> set ?returned. test True image_pattern n}"
    unfolding l ret test_image_pattern_eq using sd by auto
  have 3: "distinct ?listed"
    unfolding l using dd by simp
  have 4: "test True image_pattern (storage_filename f now rnd) \<longleftrightarrow> original_extension_allowlisted f"
    by (simp add: test_image_pattern_eq has_image_extension_storage_filename
        original_extension_allowlisted_def)
  have 5: "set ?listed = set ?returned \<and> length ?listed = length (concat reqs)"
    if a: "list_all (list_all (\<lambda>p. original_extension_allowlisted (fst p))) reqs"
      and d: "distinct ?returned"
  proof -
    have "set ?listed = set ?returned"
      unfolding l ret using sd stored_names_allowlisted [OF a] by auto
    moreover have "length ?listed = length ?returned"
      using 3 d calculation by (metis distinct_card)
    ultimately show ?thesis
      by (simp add: ret length_concat_stored_names)
  qed
  show ?thesis using 1 2 3 4 5 by blast
qed

theorem listing_after_uploads_witness:
  "list_all accepted_request [[(png_upload, 17, 5)], [(jpeg_upload, 18, 6), (png_upload, 18, 7)]] \<and>
   map response_filenames
     (fst (upload_requests None [] [[(png_upload, 17, 5)], [(jpeg_upload, 18, 6), (png_upload, 18, 7)]]))
     = [[''images-17-5.PNG''], [''images-18-6.jpeg'', ''images-18-7.PNG'']] \<and>
   set (response_filenames (list_media None
     (Inr (snd (upload_requests None [] [[(png_upload, 17, 5)], [(jpeg_upload, 18, 6), (png_upload, 18, 7)]])))))
     = {''images-17-5.PNG'', ''images-18-6.jpeg'', ''images-18-7.PNG''} \<and>
   length (response_filenames (list_media None
     (Inr (snd (upload_requests None [] [[(png_upload, 17, 5)], [(jpeg_upload, 18, 6), (png_upload, 18, 7)]])))))
     = 3"
proof -
  let ?reqs = "[[(png_upload, 17::nat, 5::nat)], [(jpeg_upload, 18, 6), (png_upload, 18, 7)]]"
  have acc: "list_all accepted_request ?reqs"
    by (simp add: accepted_request_def accepted_part_def png_upload_def jpeg_upload_def
        fileFilter_def startsWith_def fileSize_limit_def)
  have n: "storage_filename png_upload 17 5 = ''images-17-5.PNG''"
    "storage_filename jpeg_upload 18 6 = ''images-18-6.jpeg''"
    "storage_filename png_upload 18 7 = ''images-18-7.PNG''"
    by code_simp+
  obtain rs dir where run: "upload_requests None [] ?reqs = (rs, dir)"
    by (cases "upload_requests None [] ?reqs")
  have names: "map response_filenames rs = [[''images-17-5.PNG''], [''images-18-6.jpeg'', ''images-18-7.PNG'']]"
    using run
    by (auto simp: upload_request_def n write_file_def post_media_def upload_media_def
        media_entry_def Let_def response_filenames_def)
  have ext: "list_all (list_all (\<lambda>p. original_extension_allowlisted (fst p))) ?reqs"
  proof -
    have "original_extension_allowlisted png_upload" by code_simp
    moreover have "original_extension_allowlisted jpeg_upload" by code_simp
    ultimately show ?thesis by simp
  qed
  have d: "distinct (concat (map response_filenames rs))"
    unfolding names by simp
  from listing_after_uploads [OF acc run, of png_upload 17 5]
  have "list_all (list_all (\<lambda>p. original_extension_allowlisted (fst p))) ?reqs \<and>
        distinct (concat (map response_filenames rs)) \<longrightarrow>
          set (response_filenames (list_media None (Inr dir))) =
            set (concat (map response_filenames rs)) \<and>
          length (response_filenames (list_media None (Inr dir))) = length (concat ?reqs)"
    by (elim conjE)
  with ext d have "set (response_filenames (list_media None (Inr dir))) =
            set (concat (map response_filenames rs)) \<and>
          length (response_filenames (list_media None (Inr dir))) = length (concat ?reqs)"
    by (elim impE) (intro conjI)
  then show ?thesis
    unfolding run fst_conv snd_conv names using acc by auto
qed

text \<open>
  A file \<open>photo.bmp\<close> of type \<open>image/bmp\<close> is accepted and stored, and its generated
  name does not match the extension filter: the listing after this upload is empty.
\<close>

theorem accepted_upload_missing_from_listing:
  "accepted_request [(bmp_upload, 17, 5)] \<and>
   response_filenames (fst (upload_request None [] [(bmp_upload, 17, 5)])) = [''images-17-5.bmp''] \<and>
   \<not> test True image_pattern (storage_filename bmp_upload 17 5) \<and>
   response_filenames (list_media None (Inr (snd (upload_request None [] [(bmp_upload, 17, 5)])))) = []"
proof -
  have 1: "accepted_request [(bmp_upload, 17, 5)]"
    by (simp add: accepted_request_def accepted_part_def bmp_upload_def fileFilter_def
        startsWith_def fileSize_limit_def)
  have 2: "storage_filename bmp_upload 17 5 = ''images-17-5.bmp''" by code_simp
  have 3: "\<not> has_image_extension ''images-17-5.bmp''" by code_simp
  have 4: "upload_request None [] [(bmp_upload, 17, 5)] =
      (\<lparr>status = 201, body = Success_data [(''images-17-5.bmp'', ''/uploads/images-17-5.bmp'')]\<rparr>,
       [''images-17-5.bmp''])"
    by (simp add: upload_request_def 2 write_file_def post_media_def upload_media_def
        media_entry_def backendUrl_strip or_empty_def strip_api_suffix_def Let_def)
  have 5: "response_filenames (list_media None (Inr [''images-17-5.bmp''])) = []"
    using 3 by (simp add: list_media_filenames)
  have 6: "response_filenames (fst (upload_request None [] [(bmp_upload, 17, 5)])) =
      [''images-17-5.bmp'']"
    by (simp add: 4 response_filenames_def)
  have 7: "\<not> test True image_pattern (storage_filename bmp_upload 17 5)"
    using 3 by (simp add: 2 test_image_pattern_eq)
  have 8: "snd (upload_request None [] [(bmp_upload, 17, 5)]) = [''images-17-5.bmp'']"
    by (simp add: 4)
  show ?thesis
    using 1 5 6 7 unfolding 8 by (intro conjI)
qed

end
